theory Spec2Isabelle
  imports Main "HOL-Library.Word"
begin

section \<open>The operating system as seen by the Writer\<close>

text \<open>
  The package \<^verbatim>\<open>rlog\<close> (file \<^verbatim>\<open>rlog.go\<close>) talks to the outside through
  \<^verbatim>\<open>os.Stat\<close>, \<^verbatim>\<open>os.OpenFile\<close>, \<^verbatim>\<open>os.Rename\<close>, the methods
  \<^verbatim>\<open>Stat\<close>, \<^verbatim>\<open>Write\<close>, \<^verbatim>\<open>Sync\<close>, \<^verbatim>\<open>Close\<close> of \<^verbatim>\<open>*os.File\<close>, and
  \<^verbatim>\<open>time.Now\<close>. They are modelled by an explicit world that is passed through every
  function: a directory table, file contents, the table of open descriptors, a log of
  every system call made so far, and two oracles fixed by the environment (which call
  fails, and what the clock shows at each reading).

  A byte slice is a list of \<^typ>\<open>char\<close> (a HOL character is one byte).
\<close>

type_synonym bytes = "char list"
type_synonym path = string
type_synonym fd = nat
type_synonym ino = nat

datatype error =
    ErrLogClosed path     \<comment> \<open>\<^verbatim>\<open>fmt.Errorf("log file %q is closed", w.filePath)\<close>\<close>
  | ErrDirNotExist path   \<comment> \<open>\<^verbatim>\<open>fmt.Errorf("directory %q does not exist", dirPath)\<close>\<close>
  | ErrNotDir path        \<comment> \<open>\<^verbatim>\<open>fmt.Errorf("path %q is not a directory", dirPath)\<close>\<close>
  | ErrInvalid            \<comment> \<open>\<^verbatim>\<open>os.ErrInvalid\<close>: method called on a nil \<^verbatim>\<open>*os.File\<close>\<close>
  | ErrFileClosed         \<comment> \<open>\<^verbatim>\<open>os.ErrClosed\<close>: method called on a closed \<^verbatim>\<open>*os.File\<close>\<close>
  | ErrNotExist           \<comment> \<open>\<^verbatim>\<open>os.ErrNotExist\<close>\<close>
  | ErrIsDir              \<comment> \<open>the path names a directory\<close>
  | ErrIO nat             \<comment> \<open>any other failure of a system call, chosen by the environment\<close>

text \<open>
  A reading of \<^verbatim>\<open>time.Now()\<close>: the monotonic reading in nanoseconds, which
  \<^verbatim>\<open>time.Since\<close> subtracts, and the wall clock in the local zone, broken into the
  fields that \<^verbatim>\<open>Format\<close> prints.
\<close>

record time =
  mono :: int
  tm_year :: nat
  tm_month :: nat
  tm_day :: nat
  tm_hour :: nat
  tm_minute :: nat
  tm_second :: nat
  tm_nsec :: nat

datatype syscall =
    Stat path
  | OpenFile path
  | Rename path path
  | FStat fd
  | FWrite fd bytes
  | FSync fd
  | FClose fd

record world =
  dirs :: "path set"
  names :: "path \<rightharpoonup> ino"
  data :: "ino \<Rightarrow> bytes"
  next_ino :: ino
  handles :: "fd \<rightharpoonup> ino"
  next_fd :: fd
  trace :: "(syscall \<times> error option) list"
  faults :: "nat \<Rightarrow> error option"
  clock :: "nat \<Rightarrow> time"
  reads :: nat

text \<open>
  \<open>trace\<close> lists the system calls in the order they were made, each with its outcome
  (\<open>None\<close> is success). The \<open>n\<close>-th call fails with \<open>e\<close> when \<open>faults w n = Some e\<close>;
  a failed call changes nothing else, except that a failed close still releases the
  descriptor. The \<open>n\<close>-th reading of the clock is \<open>clock w n\<close>.
\<close>

definition logged :: "syscall \<Rightarrow> error option \<Rightarrow> world \<Rightarrow> world" where
  "logged c r w = w\<lparr>trace := trace w @ [(c, r)]\<rparr>"

definition fault :: "world \<Rightarrow> error option" where
  "fault w = faults w (length (trace w))"

definition time_Now :: "world \<Rightarrow> time \<times> world" where
  "time_Now w = (clock w (reads w), w\<lparr>reads := reads w + 1\<rparr>)"

text \<open>\<^verbatim>\<open>t.Sub(u)\<close> on two readings that both carry the monotonic clock.\<close>

definition time_Sub :: "time \<Rightarrow> time \<Rightarrow> int" where
  "time_Sub t u = mono t - mono u"

text \<open>\<^verbatim>\<open>os.Stat(p)\<close>, reduced to what \<^verbatim>\<open>New\<close> reads: the result is \<^verbatim>\<open>fi.IsDir()\<close>.\<close>

definition os_Stat :: "path \<Rightarrow> world \<Rightarrow> (error + bool) \<times> world" where
  "os_Stat p w =
     (case fault w of
        Some e \<Rightarrow> (Inl e, logged (Stat p) (Some e) w)
      | None \<Rightarrow>
          if p \<in> dirs w then (Inr True, logged (Stat p) None w)
          else if names w p \<noteq> None then (Inr False, logged (Stat p) None w)
          else (Inl ErrNotExist, logged (Stat p) (Some ErrNotExist) w))"

text \<open>\<^verbatim>\<open>os.OpenFile(p, os.O_CREATE|os.O_WRONLY|os.O_APPEND, 0644)\<close>.\<close>

definition os_OpenFile :: "path \<Rightarrow> world \<Rightarrow> (error + fd) \<times> world" where
  "os_OpenFile p w =
     (case fault w of
        Some e \<Rightarrow> (Inl e, logged (OpenFile p) (Some e) w)
      | None \<Rightarrow>
          if p \<in> dirs w then (Inl ErrIsDir, logged (OpenFile p) (Some ErrIsDir) w)
          else
            let w1 = (case names w p of
                        Some i \<Rightarrow> w
                      | None \<Rightarrow> w\<lparr>names := (names w)(p \<mapsto> next_ino w),
                                  data := (data w)(next_ino w := []),
                                  next_ino := next_ino w + 1\<rparr>);
                h = next_fd w1
            in (Inr h, logged (OpenFile p) None
                         (w1\<lparr>handles := (handles w1)(h := names w1 p), next_fd := h + 1\<rparr>)))"

text \<open>\<^verbatim>\<open>os.Rename(old, new)\<close>: an existing file at \<open>new\<close> is replaced.\<close>

definition os_Rename :: "path \<Rightarrow> path \<Rightarrow> world \<Rightarrow> error option \<times> world" where
  "os_Rename old new w =
     (case fault w of
        Some e \<Rightarrow> (Some e, logged (Rename old new) (Some e) w)
      | None \<Rightarrow>
          if names w old = None then (Some ErrNotExist, logged (Rename old new) (Some ErrNotExist) w)
          else if new \<in> dirs w then (Some ErrIsDir, logged (Rename old new) (Some ErrIsDir) w)
          else if old = new then (None, logged (Rename old new) None w)
          else (None, logged (Rename old new) None
                        (w\<lparr>names := (names w)(new := names w old, old := None)\<rparr>)))"

text \<open>
  The methods of \<^verbatim>\<open>*os.File\<close>. The receiver is a pointer: \<open>None\<close> is the nil
  pointer, on which every method returns \<^verbatim>\<open>ErrInvalid\<close>, and a descriptor absent
  from \<open>handles\<close> is a file that has been closed, on which every method returns
  \<^verbatim>\<open>ErrClosed\<close>; neither makes a system call.
\<close>

definition file_Stat :: "fd option \<Rightarrow> world \<Rightarrow> (error + int) \<times> world" where
  "file_Stat f w =
     (case f of
        None \<Rightarrow> (Inl ErrInvalid, w)
      | Some h \<Rightarrow>
          (case handles w h of
             None \<Rightarrow> (Inl ErrFileClosed, w)
           | Some i \<Rightarrow>
               (case fault w of
                  Some e \<Rightarrow> (Inl e, logged (FStat h) (Some e) w)
                | None \<Rightarrow> (Inr (int (length (data w i))), logged (FStat h) None w))))"

definition file_Write :: "fd option \<Rightarrow> bytes \<Rightarrow> world \<Rightarrow> (error + nat) \<times> world" where
  "file_Write f b w =
     (case f of
        None \<Rightarrow> (Inl ErrInvalid, w)
      | Some h \<Rightarrow>
          (case handles w h of
             None \<Rightarrow> (Inl ErrFileClosed, w)
           | Some i \<Rightarrow>
               (case fault w of
                  Some e \<Rightarrow> (Inl e, logged (FWrite h b) (Some e) w)
                | None \<Rightarrow> (Inr (length b),
                            logged (FWrite h b) None (w\<lparr>data := (data w)(i := data w i @ b)\<rparr>)))))"

definition file_Sync :: "fd option \<Rightarrow> world \<Rightarrow> error option \<times> world" where
  "file_Sync f w =
     (case f of
        None \<Rightarrow> (Some ErrInvalid, w)
      | Some h \<Rightarrow>
          (case handles w h of
             None \<Rightarrow> (Some ErrFileClosed, w)
           | Some i \<Rightarrow> (fault w, logged (FSync h) (fault w) w)))"

definition file_Close :: "fd option \<Rightarrow> world \<Rightarrow> error option \<times> world" where
  "file_Close f w =
     (case f of
        None \<Rightarrow> (Some ErrInvalid, w)
      | Some h \<Rightarrow>
          (case handles w h of
             None \<Rightarrow> (Some ErrFileClosed, w)
           | Some i \<Rightarrow> (fault w, logged (FClose h) (fault w) (w\<lparr>handles := (handles w)(h := None)\<rparr>))))"

section \<open>Paths and the timestamp format\<close>

text \<open>
  \<^verbatim>\<open>filepath.Join(dir, name)\<close> for a directory path that is already clean and a plain
  file name: an empty directory is dropped, otherwise the two are joined by a separator.
\<close>

definition filepath_Join :: "path \<Rightarrow> string \<Rightarrow> path" where
  "filepath_Join d n = (if d = [] then n else d @ ''/'' @ n)"

definition digit :: "nat \<Rightarrow> char" where
  "digit k = ''0123456789'' ! k"

fun digits :: "nat \<Rightarrow> string" where
  "digits n = (if n < 10 then [digit n] else digits (n div 10) @ [digit (n mod 10)])"

declare digits.simps [simp del]

text \<open>A number in decimal, padded on the left with zeros to at least \<open>width\<close> digits.\<close>

definition appendInt :: "nat \<Rightarrow> nat \<Rightarrow> string" where
  "appendInt width n = replicate (width - length (digits n)) (CHR ''0'') @ digits n"

text \<open>
  \<^verbatim>\<open>t.Format("20060102-150405.000000")\<close>: year, month, day, a dash, hour, minute,
  second, a dot, and the first six of the nine digits of the nanoseconds (the fraction
  is cut, not rounded).
\<close>

definition time_Format :: "time \<Rightarrow> string" where
  "time_Format t =
     appendInt 4 (tm_year t) @ appendInt 2 (tm_month t) @ appendInt 2 (tm_day t) @ ''-'' @
     appendInt 2 (tm_hour t) @ appendInt 2 (tm_minute t) @ appendInt 2 (tm_second t) @ ''.'' @
     appendInt 6 (tm_nsec t div 1000)"

section \<open>The Writer\<close>

text \<open>
  The struct \<^verbatim>\<open>Writer\<close>. \<open>mutex\<close> says whether the pointer to the mutex is set; in
  this sequential model locking and unlocking do nothing. \<open>file\<close> is the pointer to the
  open file, \<open>None\<close> when nil. \<^verbatim>\<open>time.Duration\<close> is a number of nanoseconds.
\<close>

record writer =
  dirPath :: path
  filePath :: path
  maxFileSize :: int
  maxBufSize :: int
  maxBufAge :: int
  lastFlush :: time
  mutex :: bool
  file_ptr :: "fd option"
  buf :: bytes

definition DefaultMaxFileSize :: int where
  "DefaultMaxFileSize = 256 * 1024 * 1024"

definition DefaultMaxBufSize :: int where
  "DefaultMaxBufSize = 4096"

definition DefaultMaxBuffAge :: int where
  "DefaultMaxBuffAge = 15 * 1000000000"

text \<open>
  The four options. \<^verbatim>\<open>WithMaxBufSize\<close> also grows the capacity of the buffer, keeping
  its contents; capacity is not part of the list that models the slice.
\<close>

datatype opt =
    WithMaxFileSize int
  | WithMaxBufSize int
  | WithMaxBufAge int
  | WithSync

fun apply_opt :: "opt \<Rightarrow> writer \<Rightarrow> writer" where
  "apply_opt (WithMaxFileSize n) s = s\<lparr>maxFileSize := n\<rparr>"
| "apply_opt (WithMaxBufSize n) s = s\<lparr>maxBufSize := n\<rparr>"
| "apply_opt (WithMaxBufAge d) s = s\<lparr>maxBufAge := d\<rparr>"
| "apply_opt WithSync s = s\<lparr>mutex := True\<rparr>"

definition New :: "world \<Rightarrow> path \<Rightarrow> opt list \<Rightarrow> (error + writer) \<times> world" where
  "New w d opts =
     (case os_Stat d w of
        (Inl e, w1) \<Rightarrow> if e = ErrNotExist then (Inl (ErrDirNotExist d), w1) else (Inl e, w1)
      | (Inr isDir, w1) \<Rightarrow>
          if \<not> isDir then (Inl (ErrNotDir d), w1)
          else
            (case time_Now w1 of
               (t, w2) \<Rightarrow>
                 let s0 = \<lparr>dirPath = d, filePath = [], maxFileSize = DefaultMaxFileSize,
                           maxBufSize = DefaultMaxBufSize, maxBufAge = DefaultMaxBuffAge,
                           lastFlush = t, mutex = False, file_ptr = None, buf = []\<rparr>;
                     s1 = foldl (\<lambda>s opt. apply_opt opt s) s0 opts;
                     s2 = s1\<lparr>filePath := filepath_Join (dirPath s1) ''latest.log''\<rparr>
                 in (case os_OpenFile (filePath s2) w2 of
                       (Inl e, w3) \<Rightarrow> (Inl e, w3)
                     | (Inr h, w3) \<Rightarrow> (Inr (s2\<lparr>file_ptr := Some h\<rparr>), w3))))"

text \<open>The sum \<^verbatim>\<open>fi.Size()+int64(len(w.buf))\<close> is a 64-bit signed sum.\<close>

definition int64_add :: "int \<Rightarrow> int \<Rightarrow> int" where
  "int64_add a b = sint (word_of_int (a + b) :: 64 word)"

definition rotate_log :: "world \<Rightarrow> writer \<Rightarrow> error option \<times> world \<times> writer" where
  "rotate_log w s =
     (case (case file_ptr s of
              None \<Rightarrow> (None, w, s)
            | Some h \<Rightarrow>
                (case file_Close (file_ptr s) w of
                   (Some e, w1) \<Rightarrow> (Some e, w1, s)
                 | (None, w1) \<Rightarrow> (None, w1, s\<lparr>file_ptr := None\<rparr>))) of
        (Some e, w1, s1) \<Rightarrow> (Some e, w1, s1)
      | (None, w1, s1) \<Rightarrow>
          (case time_Now w1 of
             (t, w2) \<Rightarrow>
               let ts = time_Format t;
                   newPath = filepath_Join (dirPath s1) (ts @ ''.log'')
               in (case os_Rename (filePath s1) newPath w2 of
                     (Some e, w3) \<Rightarrow> (Some e, w3, s1)
                   | (None, w3) \<Rightarrow>
                       (case os_OpenFile (filePath s1) w3 of
                          (Inl e, w4) \<Rightarrow> (Some e, w4, s1\<lparr>file_ptr := None\<rparr>)
                        | (Inr h, w4) \<Rightarrow> (None, w4, s1\<lparr>file_ptr := Some h\<rparr>)))))"

definition flush :: "world \<Rightarrow> writer \<Rightarrow> error option \<times> world \<times> writer" where
  "flush w s =
     (if file_ptr s = None then (Some (ErrLogClosed (filePath s)), w, s)
      else if length (buf s) = 0 then (None, w, s)
      else
        (case file_Stat (file_ptr s) w of
           (Inl e, w1) \<Rightarrow> (Some e, w1, s)
         | (Inr sz, w1) \<Rightarrow>
             (case (if int64_add sz (int (length (buf s))) \<ge> maxFileSize s
                    then rotate_log w1 s else (None, w1, s)) of
                (Some e, w2, s2) \<Rightarrow> (Some e, w2, s2)
              | (None, w2, s2) \<Rightarrow>
                  (case file_Write (file_ptr s2) (buf s2) w2 of
                     (Inl e, w3) \<Rightarrow> (Some e, w3, s2)
                   | (Inr n, w3) \<Rightarrow>
                       (case file_Sync (file_ptr s2) w3 of
                          (Some e, w4) \<Rightarrow> (Some e, w4, s2)
                        | (None, w4) \<Rightarrow>
                            (case time_Now w4 of
                               (t, w5) \<Rightarrow> (None, w5, s2\<lparr>buf := [], lastFlush := t\<rparr>)))))))"

text \<open>
  \<^verbatim>\<open>Write\<close>. The test \<^verbatim>\<open>len(w.buf) >= w.maxBufSize || time.Since(w.lastFlush) >= w.maxBufAge\<close>
  reads the clock only when its first half is false.
\<close>

definition Write :: "world \<Rightarrow> writer \<Rightarrow> bytes \<Rightarrow> (nat \<times> error option) \<times> world \<times> writer" where
  "Write w s p =
     (let s1 = s\<lparr>buf := buf s @ p\<rparr>
      in case (if int (length (buf s1)) \<ge> maxBufSize s1 then (True, w)
               else (case time_Now w of
                       (t, w1) \<Rightarrow> (time_Sub t (lastFlush s1) \<ge> maxBufAge s1, w1))) of
           (True, w1) \<Rightarrow>
             (case flush w1 s1 of
                (Some e, w2, s2) \<Rightarrow> ((0, Some e), w2, s2)
              | (None, w2, s2) \<Rightarrow> ((length p, None), w2, s2))
         | (False, w1) \<Rightarrow> ((length p, None), w1, s1))"

definition Flush :: "world \<Rightarrow> writer \<Rightarrow> error option \<times> world \<times> writer" where
  "Flush w s = flush w s"

definition Close :: "world \<Rightarrow> writer \<Rightarrow> error option \<times> world \<times> writer" where
  "Close w s =
     (case flush w s of
        (Some e, w1, s1) \<Rightarrow> (Some e, w1, s1)
      | (None, w1, s1) \<Rightarrow> (case file_Close (file_ptr s1) w1 of (r, w2) \<Rightarrow> (r, w2, s1)))"

section \<open>Observing a run\<close>

text \<open>The system calls made between an earlier world and a later one.\<close>

definition issued :: "world \<Rightarrow> world \<Rightarrow> (syscall \<times> error option) list" where
  "issued w w' = drop (length (trace w)) (trace w')"

text \<open>The bytes of the file that a path names, empty when it names none.\<close>

definition file_content :: "world \<Rightarrow> path \<Rightarrow> bytes" where
  "file_content w p = (case names w p of None \<Rightarrow> [] | Some i \<Rightarrow> data w i)"

text \<open>
  The Writers that a program can hold: \<^verbatim>\<open>New\<close> returns them, and \<^verbatim>\<open>Write\<close>,
  \<^verbatim>\<open>Flush\<close> and \<^verbatim>\<open>Close\<close> change them, in whatever world each call happens to run.
\<close>

inductive reachable :: "writer \<Rightarrow> bool" where
  by_New: "New w d opts = (Inr s, w') \<Longrightarrow> reachable s"
| by_Write: "reachable s \<Longrightarrow> Write w s p = (r, w', s') \<Longrightarrow> reachable s'"
| by_Flush: "reachable s \<Longrightarrow> Flush w s = (e, w', s') \<Longrightarrow> reachable s'"
| by_Close: "reachable s \<Longrightarrow> Close w s = (e, w', s') \<Longrightarrow> reachable s'"

text \<open>A sequence of calls on one Writer, and the error each call returns.\<close>

datatype call = CallWrite bytes | CallFlush | CallClose

fun exec_call :: "call \<Rightarrow> world \<Rightarrow> writer \<Rightarrow> error option \<times> world \<times> writer" where
  "exec_call (CallWrite p) w s = (case Write w s p of ((n, e), w', s') \<Rightarrow> (e, w', s'))"
| "exec_call CallFlush w s = Flush w s"
| "exec_call CallClose w s = Close w s"

fun run :: "call list \<Rightarrow> world \<Rightarrow> writer \<Rightarrow> error option list \<times> world \<times> writer" where
  "run [] w s = ([], w, s)"
| "run (c # cs) w s =
     (case exec_call c w s of
        (e, w1, s1) \<Rightarrow> (case run cs w1 s1 of (es, w2, s2) \<Rightarrow> (e # es, w2, s2)))"

text \<open>The bytes handed to \<^verbatim>\<open>Write\<close> over a sequence of calls, in call order.\<close>

fun written :: "call list \<Rightarrow> bytes" where
  "written [] = []"
| "written (CallWrite p # cs) = p @ written cs"
| "written (c # cs) = written cs"

text \<open>The archive paths of the renames that succeeded, oldest first.\<close>

fun archives :: "(syscall \<times> error option) list \<Rightarrow> path list" where
  "archives [] = []"
| "archives ((Rename old new, None) # evs) = new # archives evs"
| "archives (ev # evs) = archives evs"

text \<open>The number that a string of decimal digits denotes.\<close>

definition decimal :: "string \<Rightarrow> nat" where
  "decimal cs = foldl (\<lambda>a c. 10 * a + (of_char c - 48)) 0 cs"

text \<open>The ranges of the wall-clock fields of a reading of \<^verbatim>\<open>time.Now()\<close>.\<close>

definition wall_clock_ok :: "time \<Rightarrow> bool" where
  "wall_clock_ok t \<longleftrightarrow>
     1 \<le> tm_month t \<and> tm_month t \<le> 12 \<and> 1 \<le> tm_day t \<and> tm_day t \<le> 31 \<and>
     tm_hour t < 24 \<and> tm_minute t < 60 \<and> tm_second t < 60 \<and> tm_nsec t < 1000000000"

text \<open>What the archive name shows of a reading: date, time of day, and microseconds.\<close>

definition printed_fields :: "time \<Rightarrow> nat \<times> nat \<times> nat \<times> nat \<times> nat \<times> nat \<times> nat" where
  "printed_fields t =
     (tm_year t, tm_month t, tm_day t, tm_hour t, tm_minute t, tm_second t, tm_nsec t div 1000)"

text \<open>The Writer points to a file that has been closed.\<close>

definition shut :: "world \<Rightarrow> writer \<Rightarrow> bool" where
  "shut w s = (case file_ptr s of None \<Rightarrow> False | Some h \<Rightarrow> handles w h = None)"

text \<open>Every inode in the directory table was handed out by the allocator.\<close>

definition wf_world :: "world \<Rightarrow> bool" where
  "wf_world w \<longleftrightarrow> (\<forall>p i. names w p = Some i \<longrightarrow> i < next_ino w)"

text \<open>The later world has made all the system calls of the earlier one, and maybe more.\<close>

definition grows :: "world \<Rightarrow> world \<Rightarrow> bool" where
  "grows w w' \<longleftrightarrow> (\<exists>evs. trace w' = trace w @ evs)"

text \<open>
  What the log holds: the archives in the order of their rotation, then the active
  file, then the bytes still in the buffer.
\<close>

definition log_bytes :: "world \<Rightarrow> writer \<Rightarrow> path list \<Rightarrow> bytes" where
  "log_bytes w s arch =
     concat (map (file_content w) arch) @ file_content w (filePath s) @ buf s"

text \<open>
  The state of the files of one Writer: \<open>D\<close> are the paths that existed when it was
  opened, \<open>arch\<close> the archives it has made since. The active file exists, an open
  descriptor of the Writer refers to it, and the archives and the active file are
  different files that were not there before.
\<close>

definition log_inv :: "path set \<Rightarrow> world \<Rightarrow> writer \<Rightarrow> path list \<Rightarrow> bool" where
  "log_inv D w s arch \<longleftrightarrow>
     wf_world w \<and> filePath s \<in> D \<and> names w (filePath s) \<noteq> None \<and>
     (\<forall>h j. file_ptr s = Some h \<and> handles w h = Some j \<longrightarrow> names w (filePath s) = Some j) \<and>
     distinct arch \<and> set arch \<inter> D = {} \<and> set arch \<subseteq> dom (names w) \<and>
     dom (names w) \<subseteq> D \<union> set arch \<and>
     inj_on (names w) (insert (filePath s) (set arch))"

text \<open>A world and a clock reading for the examples.\<close>

definition ex_time :: time where
  "ex_time = \<lparr>mono = 0, tm_year = 2025, tm_month = 3, tm_day = 7, tm_hour = 9,
              tm_minute = 5, tm_second = 2, tm_nsec = 123456789\<rparr>"

definition ex_world :: world where
  "ex_world = \<lparr>dirs = {''logs''}, names = Map.empty, data = (\<lambda>_. []), next_ino = 0,
               handles = Map.empty, next_fd = 3, trace = [], faults = (\<lambda>_. None),
               clock = (\<lambda>_. ex_time), reads = 0\<rparr>"

text \<open>A Writer as \<^verbatim>\<open>New\<close> leaves it in \<open>ex_world\<close>, with two bytes pending.\<close>

definition ex_writer :: writer where
  "ex_writer = \<lparr>dirPath = ''logs'', filePath = ''logs/latest.log'',
                maxFileSize = DefaultMaxFileSize, maxBufSize = DefaultMaxBufSize,
                maxBufAge = DefaultMaxBuffAge, lastFlush = ex_time, mutex = False,
                file_ptr = Some 3, buf = ''ab''\<rparr>"

definition ex_open :: world where
  "ex_open = ex_world\<lparr>names := [''logs/latest.log'' \<mapsto> 0], next_ino := 1,
                       handles := [3 \<mapsto> 0], next_fd := 4,
                       trace := [(Stat ''logs'', None), (OpenFile ''logs/latest.log'', None)],
                       reads := 1\<rparr>"

text \<open>The same world, where the third system call (the size query) fails.\<close>

definition ex_faulty :: world where
  "ex_faulty = ex_open\<lparr>faults := (\<lambda>n. if n = 2 then Some (ErrIO 5) else None)\<rparr>"

text \<open>A Writer with an empty buffer that flushes as soon as two bytes are pending.\<close>

definition ex_small :: writer where
  "ex_small = ex_writer\<lparr>maxBufSize := 2, buf := []\<rparr>"

text \<open>The world of \<open>ex_open\<close> twenty seconds later on the monotonic clock.\<close>

definition ex_late :: world where
  "ex_late = ex_open\<lparr>clock := (\<lambda>_. ex_time\<lparr>mono := 20000000000\<rparr>)\<rparr>"

text \<open>The world of \<open>ex_open\<close> with the wall clock one microsecond further.\<close>

definition ex_next :: world where
  "ex_next = ex_open\<lparr>clock := (\<lambda>_. ex_time\<lparr>tm_nsec := 123457000\<rparr>)\<rparr>"

text \<open>A Writer that flushes every two bytes and rotates at every flush.\<close>

definition ex_tiny :: writer where
  "ex_tiny = ex_small\<lparr>maxFileSize := 2\<rparr>"

text \<open>The world of \<open>ex_open\<close> after the descriptor has been closed.\<close>

definition ex_shut :: world where
  "ex_shut = ex_open\<lparr>handles := Map.empty, trace := trace ex_open @ [(FClose 3, None)]\<rparr>"

text \<open>The world of \<open>ex_open\<close> where the active file already holds two bytes.\<close>

definition ex_used :: world where
  "ex_used = ex_open\<lparr>data := (\<lambda>_. [])(0 := ''xy'')\<rparr>"

text \<open>The same world, where the fifth system call (the rename of a rotation) fails.\<close>

definition ex_stuck :: world where
  "ex_stuck = ex_used\<lparr>faults := (\<lambda>n. if n = 4 then Some (ErrIO 5) else None)\<rparr>"

section \<open>Basic facts\<close>

lemmas os_defs = os_Stat_def os_OpenFile_def os_Rename_def file_Stat_def file_Write_def
  file_Sync_def file_Close_def logged_def fault_def time_Now_def time_Sub_def

lemmas ex_defs = ex_time_def ex_world_def ex_writer_def ex_open_def ex_faulty_def ex_small_def
  ex_late_def ex_next_def ex_tiny_def ex_shut_def ex_used_def ex_stuck_def
  DefaultMaxFileSize_def DefaultMaxBufSize_def DefaultMaxBuffAge_def

lemma int64_add_small:
  "- (2 ^ 63) \<le> a + b \<Longrightarrow> a + b < 2 ^ 63 \<Longrightarrow> int64_add a b = a + b"
  unfolding int64_add_def sint_sbintrunc'
  by (rule signed_take_bit_int_eq_self) simp_all

lemma ex_flush_ok:
  "flush ex_open ex_writer =
     (None,
      ex_open\<lparr>data := (\<lambda>_. [])(0 := ''ab''),
               trace := trace ex_open @ [(FStat 3, None), (FWrite 3 ''ab'', None), (FSync 3, None)],
               reads := 2\<rparr>,
      ex_writer\<lparr>buf := [], lastFlush := ex_time\<rparr>)"
  by (simp add: flush_def os_defs ex_defs int64_add_small)

lemma ex_flush_fail:
  "flush ex_faulty ex_writer =
     (Some (ErrIO 5), ex_faulty\<lparr>trace := trace ex_faulty @ [(FStat 3, Some (ErrIO 5))]\<rparr>, ex_writer)"
  by (simp add: flush_def os_defs ex_defs)

lemma rotate_keeps:
  "rotate_log w s = (r, w', s') \<Longrightarrow>
     buf s' = buf s \<and> lastFlush s' = lastFlush s \<and> dirPath s' = dirPath s \<and>
     filePath s' = filePath s \<and> maxFileSize s' = maxFileSize s \<and>
     maxBufSize s' = maxBufSize s \<and> maxBufAge s' = maxBufAge s \<and> mutex s' = mutex s"
  by (auto simp: rotate_log_def Let_def split: option.splits prod.splits sum.splits)

lemma file_Write_ok:
  "file_Write f b w = (Inr n, w') \<Longrightarrow>
     \<exists>h i. f = Some h \<and> handles w h = Some i \<and> fault w = None \<and> n = length b \<and>
       w' = w\<lparr>data := (data w)(i := data w i @ b), trace := trace w @ [(FWrite h b, None)]\<rparr>"
  by (auto simp: file_Write_def logged_def split: option.splits)

lemma file_Sync_ok:
  "file_Sync f w = (None, w') \<Longrightarrow>
     \<exists>h i. f = Some h \<and> handles w h = Some i \<and> fault w = None \<and>
       w' = w\<lparr>trace := trace w @ [(FSync h, None)]\<rparr>"
  by (auto simp: file_Sync_def logged_def split: option.splits)

lemma file_Close_ok:
  "file_Close f w = (None, w1) \<Longrightarrow>
     \<exists>h i. f = Some h \<and> handles w h = Some i \<and> fault w = None \<and>
       w1 = w\<lparr>handles := (handles w)(h := None), trace := trace w @ [(FClose h, None)]\<rparr>"
  by (auto simp: file_Close_def logged_def split: option.splits)

lemma os_Rename_ok:
  "os_Rename old new w = (None, w') \<Longrightarrow> old \<noteq> new \<Longrightarrow>
     names w old \<noteq> None \<and>
     w' = w\<lparr>names := (names w)(new := names w old, old := None),
            trace := trace w @ [(Rename old new, None)]\<rparr>"
  by (auto simp: os_Rename_def logged_def split: option.splits if_splits)

lemma os_OpenFile_new:
  "os_OpenFile p w = (Inr h, w') \<Longrightarrow> names w p = None \<Longrightarrow>
     h = next_fd w \<and>
     w' = w\<lparr>names := (names w)(p \<mapsto> next_ino w), data := (data w)(next_ino w := []),
            next_ino := next_ino w + 1, handles := (handles w)(next_fd w \<mapsto> next_ino w),
            next_fd := next_fd w + 1, trace := trace w @ [(OpenFile p, None)]\<rparr>"
  by (auto simp: os_OpenFile_def logged_def Let_def split: option.splits if_splits)

lemma flush_failure:
  "flush w s = (Some e, w', s') \<Longrightarrow> buf s' = buf s \<and> lastFlush s' = lastFlush s"
  by (auto simp: flush_def Let_def split: option.splits prod.splits sum.splits if_splits
      dest: rotate_keeps)

lemma flush_empty: "flush w s = (None, w', s') \<Longrightarrow> buf s = [] \<Longrightarrow> w' = w \<and> s' = s"
  by (auto simp: flush_def split: if_splits)

lemma flush_success:
  assumes "flush w s = (None, w', s')" and "buf s \<noteq> []"
  shows "buf s' = [] \<and> lastFlush s' = clock w' (reads w' - 1) \<and>
         (\<exists>pre h. trace w' = pre @ [(FWrite h (buf s), None), (FSync h, None)])"
  using assms
  apply (simp add: flush_def split: if_splits sum.splits prod.splits option.splits)
   apply (auto simp: time_Now_def dest!: file_Write_ok file_Sync_ok rotate_keeps)
  done

lemma rotate_elim [consumes 1, case_names close_fail rename_fail open_fail ok]:
  assumes "rotate_log w s = (r, w', s')"
  obtains
    h e where "file_ptr s = Some h" "file_Close (Some h) w = (Some e, w')" "r = Some e" "s' = s"
  | w1 e where "file_ptr s = None \<and> w1 = w \<or> file_Close (file_ptr s) w = (None, w1) \<and> file_ptr s \<noteq> None"
      "os_Rename (filePath s)
         (filepath_Join (dirPath s) (time_Format (clock w1 (reads w1)) @ ''.log''))
         (w1\<lparr>reads := reads w1 + 1\<rparr>) = (Some e, w')"
      "r = Some e" "s' = s\<lparr>file_ptr := None\<rparr>"
  | w1 w3 e where "file_ptr s = None \<and> w1 = w \<or> file_Close (file_ptr s) w = (None, w1) \<and> file_ptr s \<noteq> None"
      "os_Rename (filePath s)
         (filepath_Join (dirPath s) (time_Format (clock w1 (reads w1)) @ ''.log''))
         (w1\<lparr>reads := reads w1 + 1\<rparr>) = (None, w3)"
      "os_OpenFile (filePath s) w3 = (Inl e, w')" "r = Some e" "s' = s\<lparr>file_ptr := None\<rparr>"
  | w1 w3 h' where "file_ptr s = None \<and> w1 = w \<or> file_Close (file_ptr s) w = (None, w1) \<and> file_ptr s \<noteq> None"
      "os_Rename (filePath s)
         (filepath_Join (dirPath s) (time_Format (clock w1 (reads w1)) @ ''.log''))
         (w1\<lparr>reads := reads w1 + 1\<rparr>) = (None, w3)"
      "os_OpenFile (filePath s) w3 = (Inr h', w')" "r = None" "s' = s\<lparr>file_ptr := Some h'\<rparr>"
proof -
  let ?pre = "case file_ptr s of
                None \<Rightarrow> (None, w, s)
              | Some h \<Rightarrow>
                  (case file_Close (file_ptr s) w of
                     (Some e, w1) \<Rightarrow> (Some e, w1, s)
                   | (None, w1) \<Rightarrow> (None, w1, s\<lparr>file_ptr := None\<rparr>))"
  obtain rp w1 s1 where pre: "?pre = (rp, w1, s1)" by (cases ?pre)
  show ?thesis
  proof (cases rp)
    case (Some e)
    with pre obtain h where h: "file_ptr s = Some h" and cl: "file_Close (Some h) w = (Some e, w1)"
      and s1: "s1 = s"
      by (auto split: option.splits prod.splits)
    from assms pre Some have eqs: "r = Some e" "w1 = w'" "s1 = s'"
      unfolding rotate_log_def by simp_all
    from cl eqs have cl': "file_Close (Some h) w = (Some e, w')" by simp
    from s1 eqs have "s' = s" by simp
    with h cl' eqs(1) show ?thesis by (rule that(1))
  next
    case None
    with pre have st: "file_ptr s = None \<and> w1 = w \<or> file_Close (file_ptr s) w = (None, w1) \<and> file_ptr s \<noteq> None"
      and s1: "s1 = s\<lparr>file_ptr := None\<rparr>"
      by (auto split: option.splits prod.splits)
    let ?np = "filepath_Join (dirPath s) (time_Format (clock w1 (reads w1)) @ ''.log'')"
    let ?w2 = "w1\<lparr>reads := reads w1 + 1\<rparr>"
    have ro: "rotate_log w s =
      (case os_Rename (filePath s) ?np ?w2 of
         (Some e, w3) \<Rightarrow> (Some e, w3, s\<lparr>file_ptr := None\<rparr>)
       | (None, w3) \<Rightarrow>
           (case os_OpenFile (filePath s) w3 of
              (Inl e, w4) \<Rightarrow> (Some e, w4, s\<lparr>file_ptr := None\<rparr>)
            | (Inr h, w4) \<Rightarrow> (None, w4, s\<lparr>file_ptr := Some h\<rparr>)))"
      using pre [unfolded None s1] unfolding rotate_log_def
      by (simp add: time_Now_def Let_def split: prod.splits option.splits sum.splits)
    obtain rn w3 where rn: "os_Rename (filePath s) ?np ?w2 = (rn, w3)"
      by (cases "os_Rename (filePath s) ?np ?w2")
    show ?thesis
    proof (cases rn)
      case (Some e)
      from assms ro rn Some s1 have eqs: "r = Some e" "w3 = w'" "s' = s\<lparr>file_ptr := None\<rparr>"
        by simp_all
      from rn Some eqs have rn': "os_Rename (filePath s) ?np ?w2 = (Some e, w')" by simp
      show ?thesis by (rule that(2) [OF st rn' eqs(1) eqs(3)])
    next
      case none: None
      note rn' = rn [unfolded none]
      obtain ro' w4 where op: "os_OpenFile (filePath s) w3 = (ro', w4)"
        by (cases "os_OpenFile (filePath s) w3")
      show ?thesis
      proof (cases ro')
        case (Inl e)
        from assms ro rn' op Inl s1 have eqs: "r = Some e" "w4 = w'" "s' = s\<lparr>file_ptr := None\<rparr>"
          by simp_all
        from op Inl eqs have op': "os_OpenFile (filePath s) w3 = (Inl e, w')" by simp
        show ?thesis by (rule that(3) [OF st rn' op' eqs(1) eqs(3)])
      next
        case (Inr h')
        from assms ro rn' op Inr s1 have eqs: "r = None" "w4 = w'" "s' = s\<lparr>file_ptr := Some h'\<rparr>"
          by simp_all
        from op Inr eqs have op': "os_OpenFile (filePath s) w3 = (Inr h', w')" by simp
        show ?thesis by (rule that(4) [OF st rn' op' eqs(1) eqs(3)])
      qed
    qed
  qed
qed

lemma flush_elim [consumes 1, case_names nil empty stat_fail rotate_fail write_fail sync_fail ok]:
  assumes "flush w s = (r, w', s')"
  obtains
    "file_ptr s = None" "r = Some (ErrLogClosed (filePath s))" "w' = w" "s' = s"
  | "file_ptr s \<noteq> None" "buf s = []" "r = None" "w' = w" "s' = s"
  | e where "file_ptr s \<noteq> None" "buf s \<noteq> []" "file_Stat (file_ptr s) w = (Inl e, w')"
      "r = Some e" "s' = s"
  | sz w1 e where "file_ptr s \<noteq> None" "buf s \<noteq> []" "file_Stat (file_ptr s) w = (Inr sz, w1)"
      "int64_add sz (int (length (buf s))) \<ge> maxFileSize s"
      "rotate_log w1 s = (Some e, w', s')" "r = Some e"
  | sz w1 w2 s2 e where "file_ptr s \<noteq> None" "buf s \<noteq> []"
      "file_Stat (file_ptr s) w = (Inr sz, w1)"
      "(if int64_add sz (int (length (buf s))) \<ge> maxFileSize s then rotate_log w1 s
        else (None, w1, s)) = (None, w2, s2)"
      "file_Write (file_ptr s2) (buf s2) w2 = (Inl e, w')" "r = Some e" "s' = s2"
  | sz w1 w2 s2 n w3 e where "file_ptr s \<noteq> None" "buf s \<noteq> []"
      "file_Stat (file_ptr s) w = (Inr sz, w1)"
      "(if int64_add sz (int (length (buf s))) \<ge> maxFileSize s then rotate_log w1 s
        else (None, w1, s)) = (None, w2, s2)"
      "file_Write (file_ptr s2) (buf s2) w2 = (Inr n, w3)"
      "file_Sync (file_ptr s2) w3 = (Some e, w')" "r = Some e" "s' = s2"
  | sz w1 w2 s2 n w3 w4 where "file_ptr s \<noteq> None" "buf s \<noteq> []"
      "file_Stat (file_ptr s) w = (Inr sz, w1)"
      "(if int64_add sz (int (length (buf s))) \<ge> maxFileSize s then rotate_log w1 s
        else (None, w1, s)) = (None, w2, s2)"
      "file_Write (file_ptr s2) (buf s2) w2 = (Inr n, w3)"
      "file_Sync (file_ptr s2) w3 = (None, w4)" "r = None"
      "w' = w4\<lparr>reads := reads w4 + 1\<rparr>"
      "s' = s2\<lparr>buf := [], lastFlush := clock w4 (reads w4)\<rparr>"
proof (cases "file_ptr s = None")
  case True
  with assms have "r = Some (ErrLogClosed (filePath s))" and "w' = w" and "s' = s"
    unfolding flush_def by auto
  with True show ?thesis by (rule that(1))
next
  case op: False
  show ?thesis
  proof (cases "buf s = []")
    case True
    with assms op have "r = None" and "w' = w" and "s' = s"
      unfolding flush_def by auto
    with op True show ?thesis by (rule that(2))
  next
    case ne: False
    obtain rs w1 where st: "file_Stat (file_ptr s) w = (rs, w1)"
      by (cases "file_Stat (file_ptr s) w")
    show ?thesis
    proof (cases rs)
      case (Inl e)
      with assms op ne st have "r = Some e" and "s' = s" and "w1 = w'"
        unfolding flush_def by auto
      with st Inl show ?thesis using that(3) [OF op ne] by simp
    next
      case (Inr sz)
      note st' = st [unfolded Inr]
      let ?st = "if int64_add sz (int (length (buf s))) \<ge> maxFileSize s then rotate_log w1 s
                 else (None, w1, s)"
      obtain rr w2 s2 where stg: "?st = (rr, w2, s2)" by (cases ?st)
      have fl: "flush w s =
        (case ?st of
           (Some e, w2, s2) \<Rightarrow> (Some e, w2, s2)
         | (None, w2, s2) \<Rightarrow>
             (case file_Write (file_ptr s2) (buf s2) w2 of
                (Inl e, w3) \<Rightarrow> (Some e, w3, s2)
              | (Inr n, w3) \<Rightarrow>
                  (case file_Sync (file_ptr s2) w3 of
                     (Some e, w4) \<Rightarrow> (Some e, w4, s2)
                   | (None, w4) \<Rightarrow>
                       (case time_Now w4 of
                          (t, w5) \<Rightarrow> (None, w5, s2\<lparr>buf := [], lastFlush := t\<rparr>)))))"
        using op ne st' unfolding flush_def by auto
      show ?thesis
      proof (cases rr)
        case (Some e)
        with stg have c: "int64_add sz (int (length (buf s))) \<ge> maxFileSize s"
          by (simp split: if_splits)
        from assms fl stg Some have eqs: "r = Some e" "w2 = w'" "s2 = s'" by simp_all
        from stg Some c eqs have ro: "rotate_log w1 s = (Some e, w', s')" by simp
        show ?thesis by (rule that(4) [OF op ne st' c ro eqs(1)])
      next
        case None
        note stg' = stg [unfolded None]
        obtain rw w3 where wr: "file_Write (file_ptr s2) (buf s2) w2 = (rw, w3)"
          by (cases "file_Write (file_ptr s2) (buf s2) w2")
        show ?thesis
        proof (cases rw)
          case (Inl e)
          from assms fl stg' wr Inl have eqs: "r = Some e" "w3 = w'" "s' = s2" by simp_all
          from wr Inl eqs have wr': "file_Write (file_ptr s2) (buf s2) w2 = (Inl e, w')" by simp
          show ?thesis by (rule that(5) [OF op ne st' stg' wr' eqs(1) eqs(3)])
        next
          case (Inr n)
          note wr' = wr [unfolded Inr]
          obtain ry w4 where sy: "file_Sync (file_ptr s2) w3 = (ry, w4)"
            by (cases "file_Sync (file_ptr s2) w3")
          show ?thesis
          proof (cases ry)
            case (Some e)
            from assms fl stg' wr' sy Some have eqs: "r = Some e" "w4 = w'" "s' = s2"
              by simp_all
            from sy Some eqs have sy': "file_Sync (file_ptr s2) w3 = (Some e, w')" by simp
            show ?thesis by (rule that(6) [OF op ne st' stg' wr' sy' eqs(1) eqs(3)])
          next
            case none: None
            note sy' = sy [unfolded none]
            from assms fl stg' wr' sy'
            have eqs: "r = None" "w' = w4\<lparr>reads := reads w4 + 1\<rparr>"
              "s' = s2\<lparr>buf := [], lastFlush := clock w4 (reads w4)\<rparr>"
              by (simp_all add: time_Now_def)
            show ?thesis by (rule that(7) [OF op ne st' stg' wr' sy' eqs])
          qed
        qed
      qed
    qed
  qed
qed

lemma flush_inv:
  assumes "flush w s = (r, w', s')" and "file_ptr s = None \<longrightarrow> buf s \<noteq> []"
  shows "file_ptr s' = None \<longrightarrow> buf s' \<noteq> []"
  using assms
proof (cases rule: flush_elim)
  case (rotate_fail sz w1 e)
  with rotate_keeps [of w1 s "Some e" w' s'] show ?thesis by simp
next
  case (write_fail sz w1 w2 s2 e)
  then have "buf s2 = buf s"
    by (auto split: if_splits dest: rotate_keeps)
  with write_fail show ?thesis by simp
next
  case (sync_fail sz w1 w2 s2 n w3 e)
  then have "buf s2 = buf s"
    by (auto split: if_splits dest: rotate_keeps)
  with sync_fail show ?thesis by simp
next
  case (ok sz w1 w2 s2 n w3 w4)
  from ok(5) have "file_ptr s2 \<noteq> None" by (auto dest: file_Write_ok)
  with ok show ?thesis by simp
qed simp_all

lemma Write_cases:
  assumes "Write w s p = (r, w', s')"
  shows "r = (length p, None) \<and> w' = w\<lparr>reads := reads w + 1\<rparr> \<and> s' = s\<lparr>buf := buf s @ p\<rparr> \<or>
         (\<exists>w1 e. (w1 = w \<or> w1 = w\<lparr>reads := reads w + 1\<rparr>) \<and>
            flush w1 (s\<lparr>buf := buf s @ p\<rparr>) = (e, w', s') \<and>
            r = (if e = None then length p else 0, e))"
proof -
  let ?s1 = "s\<lparr>buf := buf s @ p\<rparr>"
  let ?g = "if int (length (buf ?s1)) \<ge> maxBufSize ?s1 then (True, w)
            else (case time_Now w of (t, w1) \<Rightarrow> (time_Sub t (lastFlush ?s1) \<ge> maxBufAge ?s1, w1))"
  obtain b w1 where g: "?g = (b, w1)" by (cases ?g)
  then have w1: "w1 = w \<or> w1 = w\<lparr>reads := reads w + 1\<rparr>"
    by (auto simp: time_Now_def split: if_splits)
  have W: "Write w s p =
     (case (b, w1) of
        (True, w1) \<Rightarrow>
          (case flush w1 ?s1 of
             (Some e, w2, s2) \<Rightarrow> ((0, Some e), w2, s2)
           | (None, w2, s2) \<Rightarrow> ((length p, None), w2, s2))
      | (False, w1) \<Rightarrow> ((length p, None), w1, ?s1))"
    unfolding Write_def Let_def g [symmetric] by (rule refl)
  show ?thesis
  proof (cases b)
    case True
    obtain e w2 s2 where fl: "flush w1 ?s1 = (e, w2, s2)" by (cases "flush w1 ?s1")
    with assms W True have "w' = w2" "s' = s2" "r = (if e = None then length p else 0, e)"
      by (cases e; simp)+
    with fl w1 show ?thesis by auto
  next
    case False
    with g have "w1 = w\<lparr>reads := reads w + 1\<rparr>"
      by (auto simp: time_Now_def split: if_splits)
    with assms W False show ?thesis by simp
  qed
qed

lemma Write_inv:
  assumes "Write w s p = (r, w', s')" and "file_ptr s = None \<longrightarrow> buf s \<noteq> []"
  shows "file_ptr s' = None \<longrightarrow> buf s' \<noteq> []"
proof -
  let ?s1 = "s\<lparr>buf := buf s @ p\<rparr>"
  have s1: "file_ptr ?s1 = None \<longrightarrow> buf ?s1 \<noteq> []" using assms(2) by simp
  from Write_cases [OF assms(1)] show ?thesis
  proof
    assume "r = (length p, None) \<and> w' = w\<lparr>reads := reads w + 1\<rparr> \<and> s' = ?s1"
    with s1 show ?thesis by simp
  next
    assume "\<exists>w1 e. (w1 = w \<or> w1 = w\<lparr>reads := reads w + 1\<rparr>) \<and>
            flush w1 ?s1 = (e, w', s') \<and> r = (if e = None then length p else 0, e)"
    then obtain w1 e where "flush w1 ?s1 = (e, w', s')" by auto
    then show ?thesis using s1 by (rule flush_inv)
  qed
qed

lemma Close_cases:
  assumes "Close w s = (r, w', s')"
  shows "(\<exists>e. r = Some e \<and> flush w s = (Some e, w', s')) \<or>
         (\<exists>w1. flush w s = (None, w1, s') \<and> file_Close (file_ptr s') w1 = (r, w'))"
proof -
  obtain e w1 s1 where fl: "flush w s = (e, w1, s1)" by (cases "flush w s")
  show ?thesis
  proof (cases e)
    case None
    with assms fl show ?thesis by (auto simp: Close_def split: prod.splits)
  next
    case (Some a)
    with assms fl show ?thesis by (auto simp: Close_def)
  qed
qed

lemma Close_inv:
  assumes "Close w s = (r, w', s')" and "file_ptr s = None \<longrightarrow> buf s \<noteq> []"
  shows "file_ptr s' = None \<longrightarrow> buf s' \<noteq> []"
proof -
  from Close_cases [OF assms(1)] obtain e w1 where "flush w s = (e, w1, s')" by auto
  then show ?thesis using assms(2) by (rule flush_inv)
qed

lemma New_file_ptr: "New w d opts = (Inr s, w') \<Longrightarrow> file_ptr s \<noteq> None"
  by (auto simp: New_def Let_def split: prod.splits sum.splits if_splits)

lemma reachable_inv: "reachable s \<Longrightarrow> file_ptr s = None \<longrightarrow> buf s \<noteq> []"
proof (induction rule: reachable.induct)
  case (by_New w d opts s w')
  then show ?case by (simp add: New_file_ptr)
next
  case (by_Write s w p r w' s')
  from by_Write(2) by_Write(3) show ?case by (rule Write_inv)
next
  case (by_Flush s w e w' s')
  from by_Flush(2) [unfolded Flush_def] by_Flush(3) show ?case by (rule flush_inv)
next
  case (by_Close s w e w' s')
  from by_Close(2) by_Close(3) show ?case by (rule Close_inv)
qed

lemma Write_untriggered:
  assumes "\<not> int (length (buf s @ p)) \<ge> maxBufSize s"
    and "\<not> time_Sub (clock w (reads w)) (lastFlush s) \<ge> maxBufAge s"
  shows "Write w s p = ((length p, None), w\<lparr>reads := reads w + 1\<rparr>, s\<lparr>buf := buf s @ p\<rparr>)"
  using assms by (simp add: Write_def time_Now_def Let_def)

lemma Write_triggered:
  assumes "int (length (buf s @ p)) \<ge> maxBufSize s \<or>
           time_Sub (clock w (reads w)) (lastFlush s) \<ge> maxBufAge s"
    and "flush (if int (length (buf s @ p)) \<ge> maxBufSize s then w else w\<lparr>reads := reads w + 1\<rparr>)
           (s\<lparr>buf := buf s @ p\<rparr>) = (r, w2, s2)"
  shows "Write w s p = ((if r = None then length p else 0, r), w2, s2)"
proof (cases "int (length (buf s @ p)) \<ge> maxBufSize s")
  case True
  with assms(2) show ?thesis by (cases r) (simp_all add: Write_def Let_def)
next
  case False
  with assms show ?thesis by (cases r) (simp_all add: Write_def Let_def time_Now_def)
qed

lemma Flush_empty_noop: "file_ptr s \<noteq> None \<Longrightarrow> buf s = [] \<Longrightarrow> Flush w s = (None, w, s)"
  by (auto simp: Flush_def flush_def)

lemma ex_New: "New ex_world ''logs'' [] = (Inr (ex_writer\<lparr>buf := []\<rparr>), ex_open)"
  by (simp add: New_def os_defs ex_defs filepath_Join_def fun_eq_iff)

section \<open>A failed flush keeps the buffer\<close>

text \<open>
  Claim C7. Whatever step of \<open>flush\<close> fails (the size query, the rotation, the write or
  the sync), the buffer and \<open>lastFlush\<close> are what they were when the flush began. The
  buffer is emptied and \<open>lastFlush\<close> set to a fresh reading of the clock only on the
  path where the flush returns nil with a non-empty buffer, and then the last two system
  calls of the run are the successful write of the whole buffer and the successful sync.
  A flush of an empty buffer changes nothing at all.
\<close>

theorem flush_error_atomicity:
  assumes "flush w s = (r, w', s')"
  shows "(r \<noteq> None \<longrightarrow> buf s' = buf s \<and> lastFlush s' = lastFlush s) \<and>
         (r = None \<and> buf s = [] \<longrightarrow> w' = w \<and> s' = s) \<and>
         (r = None \<and> buf s \<noteq> [] \<longrightarrow>
            buf s' = [] \<and> lastFlush s' = clock w' (reads w' - 1) \<and>
            (\<exists>pre h. trace w' = pre @ [(FWrite h (buf s), None), (FSync h, None)]))"
proof (cases r)
  case None
  with assms flush_empty [of w s w' s'] flush_success [of w s w' s'] show ?thesis
    by blast
next
  case (Some e)
  with assms flush_failure [of w s e w' s'] show ?thesis
    by simp
qed

theorem flush_error_atomicity_witness:
  "fst (flush ex_faulty ex_writer) \<noteq> None \<and> buf (snd (snd (flush ex_faulty ex_writer))) = ''ab'' \<and>
   fst (flush ex_open ex_writer) = None \<and> buf (snd (snd (flush ex_open ex_writer))) = []"
  using flush_error_atomicity [OF ex_flush_fail] flush_error_atomicity [OF ex_flush_ok]
  by (simp only: ex_flush_fail ex_flush_ok) (simp add: ex_writer_def)

section \<open>Write\<close>

text \<open>
  Claim C5. \<^verbatim>\<open>Write\<close> appends \<open>p\<close> to the buffer. When the buffer is still shorter
  than \<open>maxBufSize\<close> and the clock shows less than \<open>maxBufAge\<close> since \<open>lastFlush\<close>, that
  is all it does: it returns \<open>(length p, nil)\<close> and makes no system call. When the
  buffer has reached \<open>maxBufSize\<close>, or the clock shows \<open>maxBufAge\<close> or more since
  \<open>lastFlush\<close>, it flushes the buffer that now holds \<open>p\<close>, and returns \<open>(length p, nil)\<close>
  when the flush returns nil and \<open>(0, e)\<close> when the flush returns the error \<open>e\<close>.
\<close>

theorem Write_append_then_conditional_flush:
  "(\<not> int (length (buf s @ p)) \<ge> maxBufSize s \<and>
    \<not> time_Sub (clock w (reads w)) (lastFlush s) \<ge> maxBufAge s \<longrightarrow>
      Write w s p = ((length p, None), w\<lparr>reads := reads w + 1\<rparr>, s\<lparr>buf := buf s @ p\<rparr>)) \<and>
   (int (length (buf s @ p)) \<ge> maxBufSize s \<or>
    time_Sub (clock w (reads w)) (lastFlush s) \<ge> maxBufAge s \<longrightarrow>
      (\<forall>r w2 s2.
         flush (if int (length (buf s @ p)) \<ge> maxBufSize s then w else w\<lparr>reads := reads w + 1\<rparr>)
           (s\<lparr>buf := buf s @ p\<rparr>) = (r, w2, s2) \<longrightarrow>
         Write w s p = ((if r = None then length p else 0, r), w2, s2)))"
  using Write_untriggered [of s p w] Write_triggered [of s p w] by blast

theorem Write_append_then_conditional_flush_witness:
  "Write ex_open (ex_writer\<lparr>buf := []\<rparr>) ''ab'' = ((2, None), ex_open\<lparr>reads := 2\<rparr>, ex_writer) \<and>
   fst (Write ex_open ex_small ''ab'') = (2, None) \<and>
   fst (Write ex_faulty ex_small ''ab'') = (0, Some (ErrIO 5)) \<and>
   fst (Write ex_late (ex_writer\<lparr>buf := []\<rparr>) ''ab'') = (2, None)"
proof -
  have a: "Write ex_open (ex_writer\<lparr>buf := []\<rparr>) ''ab'' = ((2, None), ex_open\<lparr>reads := 2\<rparr>, ex_writer)"
    using Write_append_then_conditional_flush [of "ex_writer\<lparr>buf := []\<rparr>" "''ab''" ex_open]
    by (simp add: ex_defs time_Sub_def)
  have b: "fst (Write ex_open ex_small ''ab'') = (2, None)"
    using Write_append_then_conditional_flush [of ex_small "''ab''" ex_open]
    by (simp add: flush_def os_defs ex_defs int64_add_small)
  have c: "fst (Write ex_faulty ex_small ''ab'') = (0, Some (ErrIO 5))"
    using Write_append_then_conditional_flush [of ex_small "''ab''" ex_faulty]
    by (simp add: flush_def os_defs ex_defs int64_add_small)
  have d: "fst (Write ex_late (ex_writer\<lparr>buf := []\<rparr>) ''ab'') = (2, None)"
    using Write_append_then_conditional_flush [of "ex_writer\<lparr>buf := []\<rparr>" "''ab''" ex_late]
    by (simp add: flush_def os_defs ex_defs int64_add_small)
  from a b c d show ?thesis by blast
qed


text \<open>
  Claim C10. \<^verbatim>\<open>Write\<close> of the empty slice returns the count 0 in every case. It leaves
  the Writer as it was when neither threshold is met; when the bytes already pending
  reach \<open>maxBufSize\<close>, or \<open>maxBufAge\<close> has passed, it flushes them, and returns the
  error of that flush, nil when the flush succeeds.
\<close>

theorem Write_empty_slice:
  "fst (fst (Write w s [])) = 0 \<and>
   (\<not> int (length (buf s)) \<ge> maxBufSize s \<and>
    \<not> time_Sub (clock w (reads w)) (lastFlush s) \<ge> maxBufAge s \<longrightarrow>
      Write w s [] = ((0, None), w\<lparr>reads := reads w + 1\<rparr>, s)) \<and>
   (int (length (buf s)) \<ge> maxBufSize s \<or>
    time_Sub (clock w (reads w)) (lastFlush s) \<ge> maxBufAge s \<longrightarrow>
      (\<forall>r w2 s2.
         flush (if int (length (buf s)) \<ge> maxBufSize s then w else w\<lparr>reads := reads w + 1\<rparr>) s
           = (r, w2, s2) \<longrightarrow>
         Write w s [] = ((0, r), w2, s2)))"
proof -
  let ?trig = "int (length (buf s)) \<ge> maxBufSize s \<or>
               time_Sub (clock w (reads w)) (lastFlush s) \<ge> maxBufAge s"
  let ?w1 = "if int (length (buf s)) \<ge> maxBufSize s then w else w\<lparr>reads := reads w + 1\<rparr>"
  have quiet: "Write w s [] = ((0, None), w\<lparr>reads := reads w + 1\<rparr>, s)" if "\<not> ?trig"
    using that Write_untriggered [of s "[]" w] by simp
  have loud: "Write w s [] = ((0, r), w2, s2)" if "?trig" and "flush ?w1 s = (r, w2, s2)"
    for r w2 s2
    using that Write_triggered [of s "[]" w r w2 s2] by simp
  have "fst (fst (Write w s [])) = 0"
  proof (cases ?trig)
    case True
    obtain r w2 s2 where "flush ?w1 s = (r, w2, s2)" by (cases "flush ?w1 s") auto
    with True loud show ?thesis by simp
  next
    case False
    with quiet show ?thesis by simp
  qed
  with quiet loud show ?thesis by blast
qed

theorem Write_empty_slice_witness:
  "Write ex_open ex_writer [] = ((0, None), ex_open\<lparr>reads := 2\<rparr>, ex_writer) \<and>
   fst (Write ex_open (ex_writer\<lparr>maxBufSize := 2\<rparr>) []) = (0, None) \<and>
   data (fst (snd (Write ex_open (ex_writer\<lparr>maxBufSize := 2\<rparr>) []))) 0 = ''ab'' \<and>
   fst (Write ex_faulty (ex_writer\<lparr>maxBufSize := 2\<rparr>) []) = (0, Some (ErrIO 5))"
proof -
  have a: "Write ex_open ex_writer [] = ((0, None), ex_open\<lparr>reads := 2\<rparr>, ex_writer)"
    using Write_empty_slice [of ex_open ex_writer]
    by (simp add: ex_defs time_Sub_def)
  have b: "Write ex_open (ex_writer\<lparr>maxBufSize := 2\<rparr>) [] =
             ((0, None), ex_open\<lparr>data := (\<lambda>_. [])(0 := ''ab''),
               trace := trace ex_open @ [(FStat 3, None), (FWrite 3 ''ab'', None), (FSync 3, None)],
               reads := 2\<rparr>,
              ex_writer\<lparr>maxBufSize := 2, buf := [], lastFlush := ex_time\<rparr>)"
    using Write_empty_slice [of ex_open "ex_writer\<lparr>maxBufSize := 2\<rparr>"]
    by (simp add: flush_def os_defs ex_defs int64_add_small)
  have c: "fst (Write ex_faulty (ex_writer\<lparr>maxBufSize := 2\<rparr>) []) = (0, Some (ErrIO 5))"
    using Write_empty_slice [of ex_faulty "ex_writer\<lparr>maxBufSize := 2\<rparr>"]
    by (simp add: flush_def os_defs ex_defs int64_add_small)
  from a b c show ?thesis by simp
qed

section \<open>Flush with nothing pending\<close>

text \<open>
  Claim C9. On every Writer that \<^verbatim>\<open>New\<close> and the three operations can produce, \<^verbatim>\<open>Flush\<close>
  with an empty buffer returns nil and changes neither the Writer nor the world; so
  \<open>lastFlush\<close> keeps its value, and a later \<^verbatim>\<open>Write\<close>, in any world whose clock shows
  \<open>maxBufAge\<close> or more since that \<open>lastFlush\<close>, flushes.
\<close>

theorem Flush_empty_buffer_changes_nothing:
  assumes "reachable s" and "buf s = []"
  shows "Flush w s = (None, w, s) \<and>
         (\<forall>w2 p r w3 s3.
            time_Sub (clock w2 (reads w2)) (lastFlush s) \<ge> maxBufAge s \<longrightarrow>
            flush (if int (length p) \<ge> maxBufSize s then w2 else w2\<lparr>reads := reads w2 + 1\<rparr>)
              (s\<lparr>buf := p\<rparr>) = (r, w3, s3) \<longrightarrow>
            Write w2 s p = ((if r = None then length p else 0, r), w3, s3))"
proof -
  from assms reachable_inv have "file_ptr s \<noteq> None" by blast
  with assms(2) have "Flush w s = (None, w, s)" by (simp add: Flush_empty_noop)
  moreover have "Write w2 s p = ((if r = None then length p else 0, r), w3, s3)"
    if "time_Sub (clock w2 (reads w2)) (lastFlush s) \<ge> maxBufAge s"
      and "flush (if int (length p) \<ge> maxBufSize s then w2 else w2\<lparr>reads := reads w2 + 1\<rparr>)
              (s\<lparr>buf := p\<rparr>) = (r, w3, s3)" for w2 p r w3 s3
    using that assms(2) Write_triggered [of s p w2 r w3 s3] by simp
  ultimately show ?thesis by blast
qed


theorem Flush_empty_buffer_changes_nothing_witness:
  "reachable (ex_writer\<lparr>buf := []\<rparr>) \<and>
   Flush ex_open (ex_writer\<lparr>buf := []\<rparr>) = (None, ex_open, ex_writer\<lparr>buf := []\<rparr>) \<and>
   fst (Write ex_late (ex_writer\<lparr>buf := []\<rparr>) ''ab'') = (2, None)"
proof -
  have r: "reachable (ex_writer\<lparr>buf := []\<rparr>)"
    using ex_New by (rule reachable.by_New)
  have e: "buf (ex_writer\<lparr>buf := []\<rparr>) = []" by simp
  note inst = Flush_empty_buffer_changes_nothing [OF r e, of ex_open]
  from inst have a: "Flush ex_open (ex_writer\<lparr>buf := []\<rparr>) = (None, ex_open, ex_writer\<lparr>buf := []\<rparr>)"
    by (rule conjunct1)
  from inst have "\<forall>r w3 s3.
      maxBufAge (ex_writer\<lparr>buf := []\<rparr>)
        \<le> time_Sub (clock ex_late (reads ex_late)) (lastFlush (ex_writer\<lparr>buf := []\<rparr>)) \<longrightarrow>
      flush (if maxBufSize (ex_writer\<lparr>buf := []\<rparr>) \<le> int (length ''ab'') then ex_late
             else ex_late\<lparr>reads := reads ex_late + 1\<rparr>)
        (ex_writer\<lparr>buf := []\<rparr>\<lparr>buf := ''ab''\<rparr>) = (r, w3, s3) \<longrightarrow>
      Write ex_late (ex_writer\<lparr>buf := []\<rparr>) ''ab'' = ((if r = None then length ''ab'' else 0, r), w3, s3)"
    by blast
  then have b: "fst (Write ex_late (ex_writer\<lparr>buf := []\<rparr>) ''ab'') = (2, None)"
    by (simp add: flush_def os_defs ex_defs int64_add_small)
  from r a b show ?thesis by simp
qed

section \<open>Close after a failed flush\<close>

lemma ex_Close_fail:
  "Close ex_faulty ex_writer =
     (Some (ErrIO 5), ex_faulty\<lparr>trace := trace ex_faulty @ [(FStat 3, Some (ErrIO 5))]\<rparr>, ex_writer)"
  by (simp add: Close_def flush_def os_defs ex_defs)

text \<open>
  Claim C3, evaluated where the final flush fails: the size query of the flush returns an
  error, \<^verbatim>\<open>Close\<close> returns that error, and it has made no other system call. The
  descriptor is still open and the Writer still points to it.
\<close>

theorem Close_after_failed_flush_leaves_file_open:
  "fst (Close ex_faulty ex_writer) = Some (ErrIO 5) \<and>
   issued ex_faulty (fst (snd (Close ex_faulty ex_writer))) = [(FStat 3, Some (ErrIO 5))] \<and>
   handles (fst (snd (Close ex_faulty ex_writer))) 3 = Some 0 \<and>
   file_ptr (snd (snd (Close ex_faulty ex_writer))) = Some 3"
  by (simp add: ex_Close_fail issued_def) (simp add: ex_defs)

section \<open>Calls after an error\<close>

text \<open>
  Claim C1, evaluated on two calls. The first \<^verbatim>\<open>Write\<close> fails in its flush and
  returns the error. The Writer records nothing: the next \<^verbatim>\<open>Write\<close> queries the file
  again, writes all four pending bytes, syncs, and returns nil.
\<close>

theorem Write_after_failed_Write_retries:
  "Write ex_faulty ex_small ''ab'' =
     ((0, Some (ErrIO 5)),
      ex_faulty\<lparr>trace := trace ex_faulty @ [(FStat 3, Some (ErrIO 5))]\<rparr>,
      ex_small\<lparr>buf := ''ab''\<rparr>) \<and>
   Write (ex_faulty\<lparr>trace := trace ex_faulty @ [(FStat 3, Some (ErrIO 5))]\<rparr>)
         (ex_small\<lparr>buf := ''ab''\<rparr>) ''cd'' =
     ((2, None),
      ex_faulty\<lparr>data := (\<lambda>_. [])(0 := ''abcd''),
                 trace := trace ex_faulty @ [(FStat 3, Some (ErrIO 5)), (FStat 3, None),
                                             (FWrite 3 ''abcd'', None), (FSync 3, None)],
                 reads := 2\<rparr>,
      ex_small\<lparr>buf := [], lastFlush := ex_time\<rparr>)"
  by (simp add: Write_def Let_def flush_def os_defs ex_defs int64_add_small)

section \<open>Rotation inside a flush\<close>

lemma file_Close_open:
  "handles w h = Some i \<Longrightarrow>
     file_Close (Some h) w =
       (fault w, w\<lparr>handles := (handles w)(h := None), trace := trace w @ [(FClose h, fault w)]\<rparr>)"
  by (simp add: file_Close_def logged_def)

lemma file_Stat_open:
  "handles w h = Some i \<Longrightarrow>
     file_Stat (Some h) w =
       (case fault w of Some e \<Rightarrow> Inl e | None \<Rightarrow> Inr (int (length (data w i))),
        w\<lparr>trace := trace w @ [(FStat h, fault w)]\<rparr>)"
  by (simp add: file_Stat_def logged_def split: option.splits)

lemma file_Write_open:
  "handles w h = Some i \<Longrightarrow>
     file_Write (Some h) b w =
       (case fault w of
          Some e \<Rightarrow> (Inl e, w\<lparr>trace := trace w @ [(FWrite h b, Some e)]\<rparr>)
        | None \<Rightarrow> (Inr (length b),
                   w\<lparr>data := (data w)(i := data w i @ b), trace := trace w @ [(FWrite h b, None)]\<rparr>))"
  by (simp add: file_Write_def logged_def split: option.splits)

lemma file_Sync_open:
  "handles w h = Some i \<Longrightarrow>
     file_Sync (Some h) w = (fault w, w\<lparr>trace := trace w @ [(FSync h, fault w)]\<rparr>)"
  by (simp add: file_Sync_def logged_def)

lemma os_Rename_trace:
  "os_Rename old new w = (r, w') \<Longrightarrow>
     trace w' = trace w @ [(Rename old new, r)] \<and> handles w' = handles w \<and>
     next_fd w' = next_fd w \<and> data w' = data w \<and> next_ino w' = next_ino w \<and>
     dirs w' = dirs w \<and> faults w' = faults w \<and> clock w' = clock w \<and> reads w' = reads w"
  by (auto simp: os_Rename_def logged_def split: option.splits if_splits)

lemma os_OpenFile_trace:
  "os_OpenFile p w = (r, w') \<Longrightarrow>
     trace w' = trace w @ [(OpenFile p, case r of Inl e \<Rightarrow> Some e | Inr h \<Rightarrow> None)] \<and>
     (\<forall>h. r = Inr h \<longrightarrow> h = next_fd w \<and> handles w' h = names w' p \<and> names w' p \<noteq> None)"
  by (auto simp: os_OpenFile_def logged_def Let_def split: option.splits if_splits)

lemma rotate_issued:
  assumes "rotate_log w s = (r, w', s')" and "file_ptr s = Some h" and "handles w h = Some i"
  shows "\<exists>evs. trace w' = trace w @ evs \<and> evs \<noteq> [] \<and>
           map fst evs = take (length evs)
             [FClose h,
              Rename (filePath s) (filepath_Join (dirPath s) (time_Format (clock w (reads w)) @ ''.log'')),
              OpenFile (filePath s)] \<and>
           (\<forall>ev \<in> set (butlast evs). snd ev = None) \<and> snd (last evs) = r \<and>
           (r = None \<longrightarrow>
              evs = [(FClose h, None),
                     (Rename (filePath s)
                        (filepath_Join (dirPath s) (time_Format (clock w (reads w)) @ ''.log'')), None),
                     (OpenFile (filePath s), None)] \<and>
              file_ptr s' = Some (next_fd w) \<and> handles w' (next_fd w) \<noteq> None)"
  using assms(1)
proof (cases rule: rotate_elim)
  case (close_fail h' e)
  with assms(2,3) show ?thesis
    by (auto simp: file_Close_open)
next
  case (rename_fail w1 e)
  from rename_fail(1) assms(2,3) have w1: "w1 = w\<lparr>handles := (handles w)(h := None), trace := trace w @ [(FClose h, None)]\<rparr>"
    by (auto simp: file_Close_open)
  from os_Rename_trace [OF rename_fail(2)] w1 rename_fail(3) show ?thesis
    by simp
next
  case (open_fail w1 w3 e)
  from open_fail(1) assms(2,3) have w1: "w1 = w\<lparr>handles := (handles w)(h := None), trace := trace w @ [(FClose h, None)]\<rparr>"
    by (auto simp: file_Close_open)
  from os_Rename_trace [OF open_fail(2)] os_OpenFile_trace [OF open_fail(3)] w1 open_fail(4)
  show ?thesis by simp
next
  case (ok w1 w3 h')
  from ok(1) assms(2,3) have w1: "w1 = w\<lparr>handles := (handles w)(h := None), trace := trace w @ [(FClose h, None)]\<rparr>"
    by (auto simp: file_Close_open)
  from os_Rename_trace [OF ok(2)] os_OpenFile_trace [OF ok(3)] w1 ok(4,5)
  show ?thesis by auto
qed

lemma issued_compose:
  assumes "trace w' = trace w @ evs0 @ evs" and "map fst evs0 = pre"
    and "\<forall>ev \<in> set evs0. snd ev = None" and "evs \<noteq> []"
    and "map fst evs = take (length evs) ps"
    and "\<forall>ev \<in> set (butlast evs). snd ev = None" and "snd (last evs) = r"
  shows "map fst (issued w w') = take (length (issued w w')) (pre @ ps @ qs) \<and>
         (\<forall>ev \<in> set (butlast (issued w w')). snd ev = None) \<and>
         snd (last (issued w w')) = r \<and>
         length (issued w w') = length pre + length evs"
proof -
  have iss: "issued w w' = evs0 @ evs" using assms(1) by (simp add: issued_def)
  have "length (map fst evs) = length (take (length evs) ps)" using assms(5) by (rule arg_cong)
  then have le: "length evs \<le> length ps" by simp
  have len: "length evs0 = length pre" using assms(2) by (auto simp: length_map [symmetric] simp del: length_map)
  have "take (length evs0 + length evs) (pre @ ps @ qs) = pre @ take (length evs) ps"
    using le len by simp
  then have a: "map fst (evs0 @ evs) = take (length (evs0 @ evs)) (pre @ ps @ qs)"
    using assms(2,5) by simp
  have b: "\<forall>ev \<in> set (butlast (evs0 @ evs)). snd ev = None"
    using assms(3,4,6) by (auto simp: butlast_append)
  have c: "snd (last (evs0 @ evs)) = r" using assms(4,7) by simp
  show ?thesis unfolding iss using a b c len by simp
qed

lemma flush_tail_events:
  assumes "file_ptr s2 = Some h'" and "handles w2 h' = Some j"
    and "file_Write (file_ptr s2) (buf s2) w2 = (Inl e, w') \<and> r = Some e \<or>
         (\<exists>n w3. file_Write (file_ptr s2) (buf s2) w2 = (Inr n, w3) \<and>
            file_Sync (file_ptr s2) w3 = (Some e, w') \<and> r = Some e) \<or>
         (\<exists>n w3 w4. file_Write (file_ptr s2) (buf s2) w2 = (Inr n, w3) \<and>
            file_Sync (file_ptr s2) w3 = (None, w4) \<and> r = None \<and>
            w' = w4\<lparr>reads := reads w4 + 1\<rparr>)"
  shows "\<exists>evs. trace w' = trace w2 @ evs \<and> evs \<noteq> [] \<and>
           map fst evs = take (length evs) [FWrite h' (buf s2), FSync h'] \<and>
           (\<forall>ev \<in> set (butlast evs). snd ev = None) \<and> snd (last evs) = r \<and>
           (r = None \<longrightarrow> length evs = 2)"
  using assms(3)
proof (elim disjE exE conjE)
  assume a: "file_Write (file_ptr s2) (buf s2) w2 = (Inl e, w')" "r = Some e"
  from a(1) assms(1,2) have "trace w' = trace w2 @ [(FWrite h' (buf s2), Some e)]"
    by (auto simp: file_Write_open split: option.splits)
  with a(2) show ?thesis by simp
next
  fix n w3
  assume a: "file_Write (file_ptr s2) (buf s2) w2 = (Inr n, w3)"
    "file_Sync (file_ptr s2) w3 = (Some e, w')" "r = Some e"
  from a(1) assms(1,2) have w3: "trace w3 = trace w2 @ [(FWrite h' (buf s2), None)]"
    "handles w3 h' = Some j"
    by (auto simp: file_Write_open split: option.splits)
  from a(2) assms(1) w3(2) have "trace w' = trace w3 @ [(FSync h', Some e)]"
    by (auto simp: file_Sync_open)
  with w3 a(3) show ?thesis by simp
next
  fix n w3 w4
  assume a: "file_Write (file_ptr s2) (buf s2) w2 = (Inr n, w3)"
    "file_Sync (file_ptr s2) w3 = (None, w4)" "r = None" "w' = w4\<lparr>reads := reads w4 + 1\<rparr>"
  from a(1) assms(1,2) have w3: "trace w3 = trace w2 @ [(FWrite h' (buf s2), None)]"
    "handles w3 h' = Some j"
    by (auto simp: file_Write_open split: option.splits)
  from a(2) assms(1) w3(2) have "trace w4 = trace w3 @ [(FSync h', None)]"
    by (auto simp: file_Sync_open)
  with w3 a(3,4) show ?thesis by simp
qed

lemma rotate_issuedE:
  assumes "rotate_log w s = (r, w', s')" and "file_ptr s = Some h" and "handles w h = Some i"
  obtains evs where "trace w' = trace w @ evs" and "evs \<noteq> []"
    and "map fst evs = take (length evs)
             [FClose h,
              Rename (filePath s) (filepath_Join (dirPath s) (time_Format (clock w (reads w)) @ ''.log'')),
              OpenFile (filePath s)]"
    and "\<forall>ev \<in> set (butlast evs). snd ev = None" and "snd (last evs) = r"
    and "r = None \<longrightarrow>
              evs = [(FClose h, None),
                     (Rename (filePath s)
                        (filepath_Join (dirPath s) (time_Format (clock w (reads w)) @ ''.log'')), None),
                     (OpenFile (filePath s), None)] \<and>
              file_ptr s' = Some (next_fd w) \<and> handles w' (next_fd w) \<noteq> None"
proof -
  from rotate_issued [OF assms] obtain evs where
    all: "trace w' = trace w @ evs \<and> evs \<noteq> [] \<and>
           map fst evs = take (length evs)
             [FClose h,
              Rename (filePath s) (filepath_Join (dirPath s) (time_Format (clock w (reads w)) @ ''.log'')),
              OpenFile (filePath s)] \<and>
           (\<forall>ev \<in> set (butlast evs). snd ev = None) \<and> snd (last evs) = r \<and>
           (r = None \<longrightarrow>
              evs = [(FClose h, None),
                     (Rename (filePath s)
                        (filepath_Join (dirPath s) (time_Format (clock w (reads w)) @ ''.log'')), None),
                     (OpenFile (filePath s), None)] \<and>
              file_ptr s' = Some (next_fd w) \<and> handles w' (next_fd w) \<noteq> None)" ..
  show ?thesis
    by (rule that [OF all [THEN conjunct1] all [THEN conjunct2, THEN conjunct1]
    all [THEN conjunct2, THEN conjunct2, THEN conjunct1]
    all [THEN conjunct2, THEN conjunct2, THEN conjunct2, THEN conjunct1]
    all [THEN conjunct2, THEN conjunct2, THEN conjunct2, THEN conjunct2, THEN conjunct1]
    all [THEN conjunct2, THEN conjunct2, THEN conjunct2, THEN conjunct2, THEN conjunct2]])
qed

lemma flush_tail_eventsE:
  assumes "file_ptr s2 = Some h'" and "handles w2 h' = Some j"
    and "file_Write (file_ptr s2) (buf s2) w2 = (Inl e, w') \<and> r = Some e \<or>
         (\<exists>n w3. file_Write (file_ptr s2) (buf s2) w2 = (Inr n, w3) \<and>
            file_Sync (file_ptr s2) w3 = (Some e, w') \<and> r = Some e) \<or>
         (\<exists>n w3 w4. file_Write (file_ptr s2) (buf s2) w2 = (Inr n, w3) \<and>
            file_Sync (file_ptr s2) w3 = (None, w4) \<and> r = None \<and>
            w' = w4\<lparr>reads := reads w4 + 1\<rparr>)"
  obtains evs where "trace w' = trace w2 @ evs" and "evs \<noteq> []"
    and "map fst evs = take (length evs) [FWrite h' (buf s2), FSync h']"
    and "\<forall>ev \<in> set (butlast evs). snd ev = None" and "snd (last evs) = r"
    and "r = None \<longrightarrow> length evs = 2"
proof -
  from flush_tail_events [OF assms] obtain evs where
    all: "trace w' = trace w2 @ evs \<and> evs \<noteq> [] \<and>
           map fst evs = take (length evs) [FWrite h' (buf s2), FSync h'] \<and>
           (\<forall>ev \<in> set (butlast evs). snd ev = None) \<and> snd (last evs) = r \<and>
           (r = None \<longrightarrow> length evs = 2)" ..
  show ?thesis
    by (rule that [OF all [THEN conjunct1] all [THEN conjunct2, THEN conjunct1]
    all [THEN conjunct2, THEN conjunct2, THEN conjunct1]
    all [THEN conjunct2, THEN conjunct2, THEN conjunct2, THEN conjunct1]
    all [THEN conjunct2, THEN conjunct2, THEN conjunct2, THEN conjunct2, THEN conjunct1]
    all [THEN conjunct2, THEN conjunct2, THEN conjunct2, THEN conjunct2, THEN conjunct2]])
qed

lemma issued_pattern:
  assumes "trace w' = trace w @ evs0 @ evs" and "map fst evs0 = pre"
    and "\<forall>ev \<in> set evs0. snd ev = None" and "evs0 \<noteq> []" and "evs \<noteq> []"
    and "map fst evs = take (length evs) ps"
    and "\<forall>ev \<in> set (butlast evs). snd ev = None" and "snd (last evs) = r"
    and "r = None \<longrightarrow> length evs = length ps"
  shows "2 \<le> length (issued w w') \<and>
         map fst (issued w w') = take (length (issued w w')) (pre @ ps @ qs) \<and>
         (\<forall>ev \<in> set (butlast (issued w w')). snd ev = None) \<and>
         snd (last (issued w w')) = r \<and>
         (r = None \<longrightarrow> length (issued w w') = length pre + length ps)"
proof -
  note c = issued_compose [OF assms(1,2,3,5,6,7,8), of qs]
  have l0: "1 \<le> length evs0" using assms(4) by (cases evs0) simp_all
  have l1: "1 \<le> length evs" using assms(5) by (cases evs) simp_all
  have lp: "length pre = length evs0" unfolding assms(2) [symmetric] by simp
  from c have len: "length (issued w w') = length pre + length evs" by (elim conjE)
  with l0 l1 lp have a: "2 \<le> length (issued w w')" by simp
  from len assms(9) have b: "r = None \<longrightarrow> length (issued w w') = length pre + length ps" by simp
  from c have c1: "map fst (issued w w') = take (length (issued w w')) (pre @ ps @ qs)"
    by (elim conjE)
  from c have c2: "\<forall>ev \<in> set (butlast (issued w w')). snd ev = None" by (elim conjE)
  from c have c3: "snd (last (issued w w')) = r" by (elim conjE)
  from a b c1 c2 c3 show ?thesis by (intro conjI)
qed

lemma flush_issued_calls:
  assumes "file_ptr s = Some h" and "handles w h = Some i" and "buf s \<noteq> []"
    and "fault w = None"
    and "int (length (data w i)) + int (length (buf s)) < 2 ^ 63"
    and "flush w s = (r, w', s')"
  shows "2 \<le> length (issued w w') \<and>
         map fst (issued w w') =
           take (length (issued w w'))
             (if maxFileSize s \<le> int (length (data w i)) + int (length (buf s))
              then [FStat h, FClose h,
                    Rename (filePath s)
                      (filepath_Join (dirPath s) (time_Format (clock w (reads w)) @ ''.log'')),
                    OpenFile (filePath s), FWrite (next_fd w) (buf s), FSync (next_fd w)]
              else [FStat h, FWrite h (buf s), FSync h]) \<and>
         (\<forall>ev \<in> set (butlast (issued w w')). snd ev = None) \<and>
         snd (last (issued w w')) = r \<and>
         (r = None \<longrightarrow>
            length (issued w w') =
              (if maxFileSize s \<le> int (length (data w i)) + int (length (buf s)) then 6 else 3))"
proof -
  let ?sz = "int (length (data w i))"
  let ?w1 = "w\<lparr>trace := trace w @ [(FStat h, None)]\<rparr>"
  let ?arch = "filepath_Join (dirPath s) (time_Format (clock w (reads w)) @ ''.log'')"
  let ?cond = "maxFileSize s \<le> ?sz + int (length (buf s))"
  let ?rot = "[FClose h, Rename (filePath s) ?arch, OpenFile (filePath s)]"
  have stat: "file_Stat (file_ptr s) w = (Inr ?sz, ?w1)"
    using assms(1,2,4) by (simp add: file_Stat_open)
  have add: "int64_add ?sz (int (length (buf s))) = ?sz + int (length (buf s))"
    using assms(5) by (intro int64_add_small) simp_all
  have h1: "handles ?w1 h = Some i" using assms(2) by simp
  have m1: "map fst [(FStat h, None :: error option)] = [FStat h]" by simp
  have n1: "\<forall>ev \<in> set [(FStat h, None :: error option)]. snd ev = None" by simp
  have tail: ?thesis
    if st: "(if int64_add ?sz (int (length (buf s))) \<ge> maxFileSize s then rotate_log ?w1 s
             else (None, ?w1, s)) = (None, w2, s2)"
      and fin: "file_Write (file_ptr s2) (buf s2) w2 = (Inl e, w') \<and> r = Some e \<or>
         (\<exists>n w3. file_Write (file_ptr s2) (buf s2) w2 = (Inr n, w3) \<and>
            file_Sync (file_ptr s2) w3 = (Some e, w') \<and> r = Some e) \<or>
         (\<exists>n w3 w4. file_Write (file_ptr s2) (buf s2) w2 = (Inr n, w3) \<and>
            file_Sync (file_ptr s2) w3 = (None, w4) \<and> r = None \<and>
            w' = w4\<lparr>reads := reads w4 + 1\<rparr>)"
    for w2 s2 e
  proof (cases ?cond)
    case True
    with st add have ro: "rotate_log ?w1 s = (None, w2, s2)" by simp
    let ?evs0 = "[(FStat h, None), (FClose h, None),
                  (Rename (filePath s) ?arch, None), (OpenFile (filePath s), None)]"
    from ro assms(1) h1 obtain evr where
      evr: "trace w2 = trace ?w1 @ evr"
        "None = None \<longrightarrow>
              evr = [(FClose h, None), (Rename (filePath s) ?arch, None),
                     (OpenFile (filePath s), None)] \<and>
              file_ptr s2 = Some (next_fd ?w1) \<and> handles w2 (next_fd ?w1) \<noteq> None"
      by (rule rotate_issuedE) simp
    from evr have w2: "trace w2 = trace w @ ?evs0"
      and fp: "file_ptr s2 = Some (next_fd w)" and "handles w2 (next_fd w) \<noteq> None"
      by simp_all
    then obtain j where j: "handles w2 (next_fd w) = Some j" by (cases "handles w2 (next_fd w)") simp_all
    from rotate_keeps [OF ro] have b: "buf s2 = buf s" by (elim conjE)
    from fp j fin obtain evs where
      evs: "trace w' = trace w2 @ evs" "evs \<noteq> []"
        "map fst evs = take (length evs) [FWrite (next_fd w) (buf s2), FSync (next_fd w)]"
        "\<forall>ev \<in> set (butlast evs). snd ev = None" "snd (last evs) = r"
        "r = None \<longrightarrow> length evs = 2"
      by (rule flush_tail_eventsE)
    have tr: "trace w' = trace w @ ?evs0 @ evs" using evs(1) w2 by simp
    have m: "map fst ?evs0 = FStat h # ?rot" by simp
    have n: "\<forall>ev \<in> set ?evs0. snd ev = None" by simp
    have l: "r = None \<longrightarrow> length evs = length [FWrite (next_fd w) (buf s2), FSync (next_fd w)]"
      using evs(6) by simp
    from issued_pattern [OF tr m n _ evs(2,3,4,5) l, of "[]"] True b
    show ?thesis by simp
  next
    case False
    with st add have eq: "w2 = ?w1" "s2 = s" by simp_all
    from assms(1) h1 fin [unfolded eq] obtain evs where
      evs: "trace w' = trace ?w1 @ evs" "evs \<noteq> []"
        "map fst evs = take (length evs) [FWrite h (buf s), FSync h]"
        "\<forall>ev \<in> set (butlast evs). snd ev = None" "snd (last evs) = r"
        "r = None \<longrightarrow> length evs = 2"
      by (rule flush_tail_eventsE)
    have tr: "trace w' = trace w @ [(FStat h, None)] @ evs" using evs(1) by simp
    have l: "r = None \<longrightarrow> length evs = length [FWrite h (buf s), FSync h]"
      using evs(6) by simp
    from issued_pattern [OF tr m1 n1 _ evs(2,3,4,5) l, of "[]"] False
    show ?thesis by simp
  qed
  from assms(6) show ?thesis
  proof (cases rule: flush_elim)
    case nil
    with assms(1) show ?thesis by simp
  next
    case empty
    with assms(3) show ?thesis by simp
  next
    case (stat_fail e)
    with stat show ?thesis by simp
  next
    case (rotate_fail sz w1 e)
    with stat add have c: ?cond and ro: "rotate_log ?w1 s = (Some e, w', s')" by simp_all
    from ro assms(1) h1 obtain evs where
      evs: "trace w' = trace ?w1 @ evs" "evs \<noteq> []" "map fst evs = take (length evs) ?rot"
        "\<forall>ev \<in> set (butlast evs). snd ev = None" "snd (last evs) = Some e"
      by (rule rotate_issuedE) simp
    have tr: "trace w' = trace w @ [(FStat h, None)] @ evs" using evs(1) by simp
    have l: "Some e = None \<longrightarrow> length evs = length ?rot" by simp
    from issued_pattern [OF tr m1 n1 _ evs(2,3,4,5) l,
        of "[FWrite (next_fd w) (buf s), FSync (next_fd w)]"] c rotate_fail(6)
    show ?thesis by simp
  next
    case (write_fail sz w1 w2 s2 e)
    from write_fail(3) stat have e1: "sz = ?sz" "w1 = ?w1" by simp_all
    from write_fail(4) have st: "(if int64_add ?sz (int (length (buf s))) \<ge> maxFileSize s
                         then rotate_log ?w1 s else (None, ?w1, s)) = (None, w2, s2)"
      unfolding e1 .
    from write_fail(5,6) show ?thesis by (intro tail [OF st, of e]) simp
  next
    case (sync_fail sz w1 w2 s2 n w3 e)
    from sync_fail(3) stat have e1: "sz = ?sz" "w1 = ?w1" by simp_all
    from sync_fail(4) have st: "(if int64_add ?sz (int (length (buf s))) \<ge> maxFileSize s
                         then rotate_log ?w1 s else (None, ?w1, s)) = (None, w2, s2)"
      unfolding e1 .
    from sync_fail(5,6,7) show ?thesis by (intro tail [OF st, of e]) blast
  next
    case (ok sz w1 w2 s2 n w3 w4)
    from ok(3) stat have e1: "sz = ?sz" "w1 = ?w1" by simp_all
    from ok(4) have st: "(if int64_add ?sz (int (length (buf s))) \<ge> maxFileSize s
                         then rotate_log ?w1 s else (None, ?w1, s)) = (None, w2, s2)"
      unfolding e1 .
    from ok(5,6,7,8) show ?thesis by (intro tail [OF st, of undefined]) blast
  qed
qed

lemma length_appendInt_ge: "k \<le> length (appendInt k n)"
  by (simp add: appendInt_def)

lemma archive_not_active:
  "filepath_Join d ''latest.log'' \<noteq> filepath_Join d (time_Format t @ ''.log'')"
proof
  assume "filepath_Join d ''latest.log'' = filepath_Join d (time_Format t @ ''.log'')"
  then have "''latest.log'' = time_Format t @ ''.log''"
    by (simp add: filepath_Join_def split: if_splits)
  then have eq: "length ''latest.log'' = length (time_Format t @ ''.log'')"
    by (rule arg_cong)
  have "4 \<le> length (appendInt 4 (tm_year t))" by (rule length_appendInt_ge)
  moreover have "6 \<le> length (appendInt 6 (tm_nsec t div 1000))" by (rule length_appendInt_ge)
  ultimately have "10 < length (time_Format t @ ''.log'')"
    by (simp add: time_Format_def)
  with eq show False by simp
qed

lemma flush_plain_state:
  assumes "file_ptr s = Some h" and "handles w h = Some i" and "buf s \<noteq> []"
    and "fault w = None"
    and "int (length (data w i)) + int (length (buf s)) < 2 ^ 63"
    and "\<not> maxFileSize s \<le> int (length (data w i)) + int (length (buf s))"
    and "flush w s = (r, w', s')"
  shows "names w' = names w \<and> handles w' = handles w \<and> file_ptr s' = file_ptr s \<and>
         (r = None \<longrightarrow>
            data w' = (data w)(i := data w i @ buf s) \<and>
            s' = s\<lparr>buf := [], lastFlush := clock w (reads w)\<rparr>)"
proof -
  have add: "int64_add (int (length (data w i))) (int (length (buf s))) =
               int (length (data w i)) + int (length (buf s))"
    using assms(5) by (intro int64_add_small) simp_all
  from assms(7) show ?thesis
    using assms(1-4,6) add
    by (auto simp: flush_def file_Stat_open file_Write_open file_Sync_open time_Now_def
        fault_def split: option.splits if_splits)
qed

lemma rotate_log_state:
  assumes ro: "rotate_log w s = (None, w', s')" and h: "file_ptr s = Some h"
    and ne: "filePath s \<noteq> filepath_Join (dirPath s) (time_Format (clock w (reads w)) @ ''.log'')"
  shows "\<exists>k. names w (filePath s) = Some k \<and>
           names w' = (names w)
             (filepath_Join (dirPath s) (time_Format (clock w (reads w)) @ ''.log'') \<mapsto> k,
              filePath s \<mapsto> next_ino w) \<and>
           data w' = (data w)(next_ino w := []) \<and>
           handles w' = (handles w)(h := None, next_fd w \<mapsto> next_ino w) \<and>
           clock w' = clock w \<and> reads w' = reads w + 1 \<and>
           s' = s\<lparr>file_ptr := Some (next_fd w)\<rparr>"
  using ro
proof (cases rule: rotate_elim)
  case (ok w1 w3 h')
  let ?t = "filepath_Join (dirPath s) (time_Format (clock w (reads w)) @ ''.log'')"
  from ok(1) h have "file_Close (Some h) w = (None, w1)" by auto
  from file_Close_ok [OF this] have w1: "w1 = w\<lparr>handles := (handles w)(h := None),
      trace := trace w @ [(FClose h, None)]\<rparr>" by auto
  from ok(2) have rn: "os_Rename (filePath s) ?t (w1\<lparr>reads := reads w1 + 1\<rparr>) = (None, w3)"
    by (simp add: w1)
  from os_Rename_ok [OF rn ne]
  have old: "names w (filePath s) \<noteq> None"
    and w3: "w3 = w1\<lparr>reads := reads w1 + 1,
                    names := (names w1)(?t := names w1 (filePath s), filePath s := None),
                    trace := trace w1 @ [(Rename (filePath s) ?t, None)]\<rparr>"
    by (simp_all add: w1)
  from old obtain k where k: "names w (filePath s) = Some k" by auto
  from w3 have "names w3 (filePath s) = None" by simp
  from os_OpenFile_new [OF ok(3) this]
  have h': "h' = next_fd w3"
    and w': "w' = w3\<lparr>names := (names w3)(filePath s \<mapsto> next_ino w3),
                    data := (data w3)(next_ino w3 := []),
                    next_ino := next_ino w3 + 1, handles := (handles w3)(next_fd w3 \<mapsto> next_ino w3),
                    next_fd := next_fd w3 + 1, trace := trace w3 @ [(OpenFile (filePath s), None)]\<rparr>"
    by simp_all
  from ok(5) h' have a: "s' = s\<lparr>file_ptr := Some (next_fd w)\<rparr>" by (simp add: w3 w1)
  have b: "names w' = (names w)(?t \<mapsto> k, filePath s \<mapsto> next_ino w)"
    by (simp add: w' w3 w1 k)
  have c: "data w' = (data w)(next_ino w := [])"
    "handles w' = (handles w)(h := None, next_fd w \<mapsto> next_ino w)"
    "clock w' = clock w" "reads w' = reads w + 1"
    by (simp_all add: w' w3 w1)
  from k a b c show ?thesis by (intro exI [of _ k] conjI)
qed simp_all

lemma flush_rotated_state:
  assumes "file_ptr s = Some h" and "handles w h = Some i" and "buf s \<noteq> []"
    and "fault w = None"
    and "int (length (data w i)) + int (length (buf s)) < 2 ^ 63"
    and "maxFileSize s \<le> int (length (data w i)) + int (length (buf s))"
    and "filePath s \<noteq> filepath_Join (dirPath s) (time_Format (clock w (reads w)) @ ''.log'')"
    and "flush w s = (None, w', s')"
  shows "\<exists>k. names w (filePath s) = Some k \<and>
           names w' = (names w)
             (filepath_Join (dirPath s) (time_Format (clock w (reads w)) @ ''.log'') \<mapsto> k,
              filePath s \<mapsto> next_ino w) \<and>
           data w' = (data w)(next_ino w := buf s) \<and>
           handles w' = (handles w)(h := None, next_fd w \<mapsto> next_ino w) \<and>
           s' = s\<lparr>file_ptr := Some (next_fd w), buf := [],
                  lastFlush := clock w (reads w + 1)\<rparr>"
proof -
  let ?sz = "int (length (data w i))"
  let ?w1 = "w\<lparr>trace := trace w @ [(FStat h, None)]\<rparr>"
  let ?t = "filepath_Join (dirPath s) (time_Format (clock w (reads w)) @ ''.log'')"
  have stat: "file_Stat (file_ptr s) w = (Inr ?sz, ?w1)"
    using assms(1,2,4) by (simp add: file_Stat_open)
  have add: "int64_add ?sz (int (length (buf s))) = ?sz + int (length (buf s))"
    using assms(5) by (intro int64_add_small) simp_all
  from assms(8) show ?thesis
  proof (cases rule: flush_elim)
    case empty
    with assms(3) show ?thesis by simp
  next
    case (ok sz w1 w2 s2 n w3 w4)
    from ok(3) stat have e1: "sz = ?sz" "w1 = ?w1" by simp_all
    from ok(4) add assms(6) have ro: "rotate_log ?w1 s = (None, w2, s2)"
      unfolding e1 by simp
    have ne: "filePath s \<noteq> filepath_Join (dirPath s) (time_Format (clock ?w1 (reads ?w1)) @ ''.log'')"
      using assms(7) by simp
    from rotate_log_state [OF ro assms(1) ne] obtain k where
      k: "names w (filePath s) = Some k"
      and nm: "names w2 = (names w)(?t \<mapsto> k, filePath s \<mapsto> next_ino w)"
      and da: "data w2 = (data w)(next_ino w := [])"
      and ha: "handles w2 = (handles w)(h := None, next_fd w \<mapsto> next_ino w)"
      and cl: "clock w2 = clock w" "reads w2 = reads w + 1"
      and s2: "s2 = s\<lparr>file_ptr := Some (next_fd w)\<rparr>"
      by auto
    from file_Write_ok [OF ok(5)] s2 ha
    have w3: "w3 = w2\<lparr>data := (data w2)(next_ino w := data w2 (next_ino w) @ buf s),
                     trace := trace w2 @ [(FWrite (next_fd w) (buf s), None)]\<rparr>"
      by auto
    from file_Sync_ok [OF ok(6)] s2
    have w4: "w4 = w3\<lparr>trace := trace w3 @ [(FSync (next_fd w), None)]\<rparr>"
      by auto
    have a: "names w' = (names w)(?t \<mapsto> k, filePath s \<mapsto> next_ino w)"
      by (simp add: ok(8) w4 w3 nm)
    have b: "data w' = (data w)(next_ino w := buf s)"
      by (simp add: ok(8) w4 w3 da)
    have c: "handles w' = (handles w)(h := None, next_fd w \<mapsto> next_ino w)"
      by (simp add: ok(8) w4 w3 ha)
    have d: "s' = s\<lparr>file_ptr := Some (next_fd w), buf := [],
                  lastFlush := clock w (reads w + 1)\<rparr>"
      by (simp add: ok(9) w4 w3 cl s2)
    from k a b c d show ?thesis by (intro exI [of _ k] conjI)
  qed (use assms(1) in simp_all)
qed

text \<open>
  Claim C6. Take a flush of a non-empty buffer through an open descriptor whose size query
  succeeds, the file size plus the buffer length staying below \<open>2 ^ 63\<close>.

  The system calls it makes are an initial part of a fixed sequence, each call but the
  last succeeding and the last one returning what the flush returns. When the file size
  plus the buffer length is at least \<open>maxFileSize\<close> the sequence is: size query, close of
  the old descriptor, rename of the active file to the archive name, open of a new active
  file, write of the buffer to the new descriptor, sync. Otherwise it is: size query,
  write of the buffer, sync. At least two calls are made, so the rotation is begun
  exactly when the size test holds, and the buffer is written only after close, rename
  and open have all succeeded. A flush that returns nil has made the whole sequence.

  The files and the Writer end as follows. A flush that returns an error leaves the buffer
  as it was. When the size test fails, no path is renamed, no descriptor is opened or
  closed and the Writer keeps its file, whatever the flush returns; if it returns nil, the
  buffer has been appended to the file of the descriptor, no other file has changed, and
  the buffer is empty. When the size test holds and the flush returns nil (the active path
  being \<^verbatim>\<open>latest.log\<close> in the Writer's directory, as \<^verbatim>\<open>New\<close> sets it), the archive
  name now refers to the file that the active path named before, the active path refers to
  the newly allocated file, whose content is exactly the buffer, the content of every
  other file is what it was (the buffer has gone to the new file and not to the archived
  one), the old descriptor is closed, the Writer holds the new descriptor, which refers to
  the new file, and the buffer is empty.
\<close>

theorem rotation_decided_by_size_and_precedes_write:
  assumes "file_ptr s = Some h" and "handles w h = Some i" and "buf s \<noteq> []"
    and "fault w = None"
    and "int (length (data w i)) + int (length (buf s)) < 2 ^ 63"
    and "flush w s = (r, w', s')"
  shows "2 \<le> length (issued w w') \<and>
         map fst (issued w w') =
           take (length (issued w w'))
             (if maxFileSize s \<le> int (length (data w i)) + int (length (buf s))
              then [FStat h, FClose h,
                    Rename (filePath s)
                      (filepath_Join (dirPath s) (time_Format (clock w (reads w)) @ ''.log'')),
                    OpenFile (filePath s), FWrite (next_fd w) (buf s), FSync (next_fd w)]
              else [FStat h, FWrite h (buf s), FSync h]) \<and>
         (\<forall>ev \<in> set (butlast (issued w w')). snd ev = None) \<and>
         snd (last (issued w w')) = r \<and>
         (r = None \<longrightarrow>
            length (issued w w') =
              (if maxFileSize s \<le> int (length (data w i)) + int (length (buf s)) then 6 else 3)) \<and>
         (r \<noteq> None \<longrightarrow> buf s' = buf s) \<and>
         (\<not> maxFileSize s \<le> int (length (data w i)) + int (length (buf s)) \<longrightarrow>
            names w' = names w \<and> handles w' = handles w \<and> file_ptr s' = file_ptr s) \<and>
         (r = None \<and> \<not> maxFileSize s \<le> int (length (data w i)) + int (length (buf s)) \<longrightarrow>
            data w' = (data w)(i := data w i @ buf s) \<and>
            s' = s\<lparr>buf := [], lastFlush := clock w (reads w)\<rparr>) \<and>
         (r = None \<and> maxFileSize s \<le> int (length (data w i)) + int (length (buf s)) \<and>
          filePath s = filepath_Join (dirPath s) ''latest.log'' \<longrightarrow>
            (\<exists>k. names w (filePath s) = Some k \<and>
               names w' = (names w)
                 (filepath_Join (dirPath s) (time_Format (clock w (reads w)) @ ''.log'') \<mapsto> k,
                  filePath s \<mapsto> next_ino w) \<and>
               data w' = (data w)(next_ino w := buf s) \<and>
               handles w' = (handles w)(h := None, next_fd w \<mapsto> next_ino w) \<and>
               s' = s\<lparr>file_ptr := Some (next_fd w), buf := [],
                      lastFlush := clock w (reads w + 1)\<rparr>))"
    (is "?A \<and> ?B \<and> ?C \<and> ?D \<and> ?E \<and> ?F \<and> ?G \<and> ?H \<and> ?I")
proof -
  note calls = flush_issued_calls [OF assms]
  have f: ?F
  proof
    assume "r \<noteq> None"
    then obtain e where "r = Some e" by auto
    with assms(6) flush_failure [of w s e w' s'] show "buf s' = buf s" by simp
  qed
  have g: ?G and h: ?H
    using flush_plain_state [OF assms(1-5) _ assms(6)] by blast+
  have i: ?I
  proof (intro impI, elim conjE)
    assume r: "r = None"
      and c: "maxFileSize s \<le> int (length (data w i)) + int (length (buf s))"
      and p: "filePath s = filepath_Join (dirPath s) ''latest.log''"
    have ne: "filePath s \<noteq>
        filepath_Join (dirPath s) (time_Format (clock w (reads w)) @ ''.log'')"
      unfolding p by (rule archive_not_active)
    from assms(6) r have fl: "flush w s = (None, w', s')" by simp
    show "\<exists>k. names w (filePath s) = Some k \<and>
               names w' = (names w)
                 (filepath_Join (dirPath s) (time_Format (clock w (reads w)) @ ''.log'') \<mapsto> k,
                  filePath s \<mapsto> next_ino w) \<and>
               data w' = (data w)(next_ino w := buf s) \<and>
               handles w' = (handles w)(h := None, next_fd w \<mapsto> next_ino w) \<and>
               s' = s\<lparr>file_ptr := Some (next_fd w), buf := [],
                      lastFlush := clock w (reads w + 1)\<rparr>"
      by (rule flush_rotated_state [OF assms(1-5) c ne fl])
  qed
  note a = calls [THEN conjunct1]
  note b = calls [THEN conjunct2, THEN conjunct1]
  note c = calls [THEN conjunct2, THEN conjunct2, THEN conjunct1]
  note d = calls [THEN conjunct2, THEN conjunct2, THEN conjunct2, THEN conjunct1]
  note e = calls [THEN conjunct2, THEN conjunct2, THEN conjunct2, THEN conjunct2]
  from a b c d e f g h i show ?thesis by (intro conjI)
qed

lemma ex_stamp: "time_Format ex_time = ''20250307-090502.123456''"
  by (simp add: time_Format_def appendInt_def digits.simps digit_def ex_time_def)

lemmas ex_stamp' = ex_stamp [unfolded ex_time_def]

theorem rotation_decided_by_size_and_precedes_write_witness:
  "fst (flush ex_used (ex_writer\<lparr>maxFileSize := 2\<rparr>)) = None \<and>
   map fst (issued ex_used (fst (snd (flush ex_used (ex_writer\<lparr>maxFileSize := 2\<rparr>))))) =
     [FStat 3, FClose 3, Rename ''logs/latest.log'' ''logs/20250307-090502.123456.log'',
      OpenFile ''logs/latest.log'', FWrite 4 ''ab'', FSync 4] \<and>
   file_content (fst (snd (flush ex_used (ex_writer\<lparr>maxFileSize := 2\<rparr>))))
     ''logs/20250307-090502.123456.log'' = ''xy'' \<and>
   file_content (fst (snd (flush ex_used (ex_writer\<lparr>maxFileSize := 2\<rparr>))))
     ''logs/latest.log'' = ''ab'' \<and>
   handles (fst (snd (flush ex_used (ex_writer\<lparr>maxFileSize := 2\<rparr>)))) 3 = None \<and>
   handles (fst (snd (flush ex_used (ex_writer\<lparr>maxFileSize := 2\<rparr>)))) 4 = Some 1 \<and>
   file_ptr (snd (snd (flush ex_used (ex_writer\<lparr>maxFileSize := 2\<rparr>)))) = Some 4 \<and>
   buf (snd (snd (flush ex_used (ex_writer\<lparr>maxFileSize := 2\<rparr>)))) = [] \<and>
   fst (flush ex_used ex_writer) = None \<and>
   map fst (issued ex_used (fst (snd (flush ex_used ex_writer)))) =
     [FStat 3, FWrite 3 ''ab'', FSync 3] \<and>
   file_content (fst (snd (flush ex_used ex_writer))) ''logs/latest.log'' = ''xyab'' \<and>
   handles (fst (snd (flush ex_used ex_writer))) 3 = Some 0 \<and>
   file_ptr (snd (snd (flush ex_used ex_writer))) = Some 3 \<and>
   buf (snd (snd (flush ex_used ex_writer))) = [] \<and>
   fst (flush ex_stuck (ex_writer\<lparr>maxFileSize := 2\<rparr>)) = Some (ErrIO 5) \<and>
   map fst (issued ex_stuck (fst (snd (flush ex_stuck (ex_writer\<lparr>maxFileSize := 2\<rparr>))))) =
     [FStat 3, FClose 3, Rename ''logs/latest.log'' ''logs/20250307-090502.123456.log''] \<and>
   buf (snd (snd (flush ex_stuck (ex_writer\<lparr>maxFileSize := 2\<rparr>)))) = ''ab''"
proof -
  let ?s = "ex_writer\<lparr>maxFileSize := 2\<rparr>"
  let ?f = "flush ex_used ?s"
  let ?g = "flush ex_used ex_writer"
  let ?e = "flush ex_stuck ?s"
  have fl: "flush ex_used ?s = (fst ?f, fst (snd ?f), snd (snd ?f))" by simp
  have gl: "flush ex_used ex_writer = (fst ?g, fst (snd ?g), snd (snd ?g))" by simp
  have el: "flush ex_stuck ?s = (fst ?e, fst (snd ?e), snd (snd ?e))" by simp
  have r: "fst ?f = None"
    by (simp add: flush_def rotate_log_def os_defs ex_defs int64_add_small Let_def ex_stamp'
        filepath_Join_def)
  have q: "fst ?g = None"
    by (simp add: flush_def os_defs ex_defs int64_add_small)
  have x: "fst ?e = Some (ErrIO 5)"
    by (simp add: flush_def rotate_log_def os_defs ex_defs int64_add_small Let_def ex_stamp'
        filepath_Join_def)
  have h1: "file_ptr ?s = Some 3" and h1': "file_ptr ex_writer = Some 3"
    and h2: "handles ex_used 3 = Some 0" and h2': "handles ex_stuck 3 = Some 0"
    and h3: "buf ?s \<noteq> []" and h3': "buf ex_writer \<noteq> []"
    and h4: "fault ex_used = None" and h4': "fault ex_stuck = None"
    and h5: "int (length (data ex_used 0)) + int (length (buf ?s)) < 2 ^ 63"
    and h5': "int (length (data ex_used 0)) + int (length (buf ex_writer)) < 2 ^ 63"
    and h5'': "int (length (data ex_stuck 0)) + int (length (buf ?s)) < 2 ^ 63"
    by (simp_all add: ex_defs fault_def)
  note rot = rotation_decided_by_size_and_precedes_write [OF h1 h2 h3 h4 h5 fl]
  note pln = rotation_decided_by_size_and_precedes_write [OF h1' h2 h3' h4 h5' gl]
  note err = rotation_decided_by_size_and_precedes_write [OF h1 h2' h3 h4' h5'' el]
  have a: "map fst (issued ex_used (fst (snd ?f))) =
     [FStat 3, FClose 3, Rename ''logs/latest.log'' ''logs/20250307-090502.123456.log'',
      OpenFile ''logs/latest.log'', FWrite 4 ''ab'', FSync 4]"
    using rot [THEN conjunct2, THEN conjunct1]
      rot [THEN conjunct2, THEN conjunct2, THEN conjunct2, THEN conjunct2, THEN conjunct1] r
    by (simp add: ex_defs ex_stamp' filepath_Join_def)
  note rot9 = rot [THEN conjunct2, THEN conjunct2, THEN conjunct2, THEN conjunct2,
      THEN conjunct2, THEN conjunct2, THEN conjunct2, THEN conjunct2]
  have a1: "file_content (fst (snd ?f)) ''logs/20250307-090502.123456.log'' = ''xy''"
    and a2: "file_content (fst (snd ?f)) ''logs/latest.log'' = ''ab''"
    and a3: "handles (fst (snd ?f)) 3 = None"
    and a4: "handles (fst (snd ?f)) 4 = Some 1"
    and a5: "file_ptr (snd (snd ?f)) = Some 4"
    and a6: "buf (snd (snd ?f)) = []"
    using rot9 r
    by (auto simp: file_content_def ex_defs ex_stamp' filepath_Join_def)
  have b: "map fst (issued ex_used (fst (snd ?g))) = [FStat 3, FWrite 3 ''ab'', FSync 3]"
    using pln [THEN conjunct2, THEN conjunct1]
      pln [THEN conjunct2, THEN conjunct2, THEN conjunct2, THEN conjunct2, THEN conjunct1] q
    by (simp add: ex_defs)
  note pln7 = pln [THEN conjunct2, THEN conjunct2, THEN conjunct2, THEN conjunct2,
      THEN conjunct2, THEN conjunct2, THEN conjunct1]
  note pln8 = pln [THEN conjunct2, THEN conjunct2, THEN conjunct2, THEN conjunct2,
      THEN conjunct2, THEN conjunct2, THEN conjunct2, THEN conjunct1]
  have b1: "file_content (fst (snd ?g)) ''logs/latest.log'' = ''xyab''"
    and b2: "handles (fst (snd ?g)) 3 = Some 0"
    and b3: "file_ptr (snd (snd ?g)) = Some 3"
    and b4: "buf (snd (snd ?g)) = []"
    using pln7 pln8 q
    by (auto simp: file_content_def ex_defs)
  have len: "length (issued ex_stuck (fst (snd ?e))) = 3"
    by (simp add: flush_def rotate_log_def os_defs ex_defs int64_add_small Let_def ex_stamp'
        filepath_Join_def issued_def)
  have c: "map fst (issued ex_stuck (fst (snd ?e))) =
     [FStat 3, FClose 3, Rename ''logs/latest.log'' ''logs/20250307-090502.123456.log'']"
    using err [THEN conjunct2, THEN conjunct1] len
    by (simp add: ex_defs ex_stamp' filepath_Join_def)
  have c1: "buf (snd (snd ?e)) = ''ab''"
    using err [THEN conjunct2, THEN conjunct2, THEN conjunct2, THEN conjunct2,
      THEN conjunct2, THEN conjunct1] x
    by (simp add: ex_defs)
  from r a a1 a2 a3 a4 a5 a6 q b b1 b2 b3 b4 x c c1 show ?thesis by (intro conjI)
qed


section \<open>Archive names\<close>

lemma digit_val: "k < 10 \<Longrightarrow> of_char (digit k) - 48 = k"
proof -
  assume "k < 10"
  then have "k = 0 \<or> k = 1 \<or> k = 2 \<or> k = 3 \<or> k = 4 \<or> k = 5 \<or> k = 6 \<or> k = 7 \<or> k = 8 \<or> k = 9"
    by arith
  then show ?thesis
    by (elim disjE) (simp_all add: digit_def)
qed

lemma decimal_snoc: "decimal (cs @ [c]) = 10 * decimal cs + (of_char c - 48)"
  by (simp add: decimal_def)

lemma decimal_digits: "decimal (digits n) = n"
proof (induction n rule: digits.induct)
  case (1 n)
  show ?case
  proof (cases "n < 10")
    case True
    then show ?thesis
      by (subst digits.simps) (simp add: decimal_def digit_val)
  next
    case False
    with 1 have "decimal (digits (n div 10)) = n div 10" by simp
    with False show ?thesis
      by (subst digits.simps) (simp add: decimal_snoc digit_val)
  qed
qed

lemma decimal_zeros: "decimal (replicate k (CHR ''0'') @ cs) = decimal cs"
  by (induction k) (simp_all add: decimal_def)

lemma decimal_appendInt: "decimal (appendInt k n) = n"
  by (simp add: appendInt_def decimal_zeros decimal_digits)

lemma appendInt_inj: "appendInt k a = appendInt k b \<Longrightarrow> a = b"
  by (metis decimal_appendInt)

lemma length_digits: "0 < k \<Longrightarrow> n < 10 ^ k \<Longrightarrow> length (digits n) \<le> k"
proof (induction k arbitrary: n)
  case 0
  then show ?case by simp
next
  case (Suc k)
  show ?case
  proof (cases "n < 10")
    case True
    then show ?thesis by (subst digits.simps) simp
  next
    case False
    with Suc.prems have k: "0 < k"
      by (cases k) simp_all
    from Suc.prems have "n div 10 < 10 ^ k"
      by (simp add: less_mult_imp_div_less mult.commute)
    with Suc.IH k have "length (digits (n div 10)) \<le> k" by simp
    with False show ?thesis by (subst digits.simps) simp
  qed
qed

lemma length_appendInt: "0 < k \<Longrightarrow> n < 10 ^ k \<Longrightarrow> length (appendInt k n) = k"
  using length_digits [of k n] by (simp add: appendInt_def)


lemma time_Format_eq_iff:
  assumes "wall_clock_ok t1" and "wall_clock_ok t2"
  shows "time_Format t1 = time_Format t2 \<longleftrightarrow> printed_fields t1 = printed_fields t2"
proof
  assume "printed_fields t1 = printed_fields t2"
  then show "time_Format t1 = time_Format t2"
    by (simp add: printed_fields_def time_Format_def)
next
  assume eq: "time_Format t1 = time_Format t2"
  have two: "length (appendInt 2 n) = 2" if "n < 60 \<or> n \<le> 31" for n
  proof -
    from that have "n < 10 ^ 2" by auto
    then show ?thesis by (intro length_appendInt) simp_all
  qed
  have six: "length (appendInt 6 (tm_nsec t div 1000)) = 6" if "wall_clock_ok t" for t
  proof -
    from that have "tm_nsec t < 1000000000" by (simp add: wall_clock_ok_def)
    then have "tm_nsec t div 1000 < 1000000" by arith
    then have "tm_nsec t div 1000 < 10 ^ 6" by simp
    then show ?thesis by (intro length_appendInt) simp_all
  qed
  have L: "length (appendInt 2 (tm_month t)) = 2" "length (appendInt 2 (tm_day t)) = 2"
    "length (appendInt 2 (tm_hour t)) = 2" "length (appendInt 2 (tm_minute t)) = 2"
    "length (appendInt 2 (tm_second t)) = 2" if "wall_clock_ok t" for t
    using that by (auto simp: wall_clock_ok_def intro!: two)
  from eq have "appendInt 4 (tm_year t1) = appendInt 4 (tm_year t2) \<and>
                appendInt 2 (tm_month t1) = appendInt 2 (tm_month t2) \<and>
                appendInt 2 (tm_day t1) = appendInt 2 (tm_day t2) \<and>
                appendInt 2 (tm_hour t1) = appendInt 2 (tm_hour t2) \<and>
                appendInt 2 (tm_minute t1) = appendInt 2 (tm_minute t2) \<and>
                appendInt 2 (tm_second t1) = appendInt 2 (tm_second t2) \<and>
                appendInt 6 (tm_nsec t1 div 1000) = appendInt 6 (tm_nsec t2 div 1000)"
    by (simp add: time_Format_def L [OF assms(1)] L [OF assms(2)] six [OF assms(1)] six [OF assms(2)])
  then show "printed_fields t1 = printed_fields t2"
    by (auto simp: printed_fields_def dest: appendInt_inj)
qed

lemma archive_name_eq_iff:
  "filepath_Join d (x @ ''.log'') = filepath_Join d (y @ ''.log'') \<longleftrightarrow> x = y"
  by (simp add: filepath_Join_def)

lemma rotate_archives:
  assumes "rotate_log w s = (None, w', s')"
  shows "archives (issued w w') =
           [filepath_Join (dirPath s) (time_Format (clock w (reads w)) @ ''.log'')]"
  using assms
proof (cases rule: rotate_elim)
  case (ok w1 w3 h')
  from ok(1) have w1: "clock w1 = clock w \<and> reads w1 = reads w \<and>
      (trace w1 = trace w \<or> (\<exists>h. trace w1 = trace w @ [(FClose h, None)]))"
    by (auto dest!: file_Close_ok)
  from os_Rename_trace [OF ok(2)] os_OpenFile_trace [OF ok(3)] w1
  show ?thesis by (auto simp: issued_def)
qed simp_all

text \<open>
  Claim C8, as amended. A rotation that succeeds makes exactly one rename, to the path
  \<open>dirPath/stamp.log\<close>, where \<open>stamp\<close> prints the clock reading taken in the rotation as
  year, month, day, hour, minute, second and microseconds. Two rotations under the same
  directory get the same archive name exactly when their readings agree in all the
  printed fields; readings that differ in a printed field give distinct names.
\<close>

theorem archive_name_is_microsecond_stamp:
  assumes "rotate_log w1 s1 = (None, w1', s1')" and "rotate_log w2 s2 = (None, w2', s2')"
    and "dirPath s1 = dirPath s2"
    and "wall_clock_ok (clock w1 (reads w1))" and "wall_clock_ok (clock w2 (reads w2))"
  shows "archives (issued w1 w1') =
           [filepath_Join (dirPath s1) (time_Format (clock w1 (reads w1)) @ ''.log'')] \<and>
         archives (issued w2 w2') =
           [filepath_Join (dirPath s2) (time_Format (clock w2 (reads w2)) @ ''.log'')] \<and>
         (archives (issued w1 w1') = archives (issued w2 w2') \<longleftrightarrow>
            printed_fields (clock w1 (reads w1)) = printed_fields (clock w2 (reads w2)))"
  using rotate_archives [OF assms(1)] rotate_archives [OF assms(2)] assms(3)
    time_Format_eq_iff [OF assms(4,5)]
  by (simp add: archive_name_eq_iff)

lemma ex_stamps:
  "time_Format \<lparr>mono = m, tm_year = 2025, tm_month = 3, tm_day = 7, tm_hour = 9,
                tm_minute = 5, tm_second = 2, tm_nsec = 123456789\<rparr> = ''20250307-090502.123456''"
  "time_Format \<lparr>mono = m, tm_year = 2025, tm_month = 3, tm_day = 7, tm_hour = 9,
                tm_minute = 5, tm_second = 2, tm_nsec = 123457000\<rparr> = ''20250307-090502.123457''"
  by (simp_all add: time_Format_def appendInt_def digits.simps digit_def)

theorem archive_name_is_microsecond_stamp_witness:
  "archives (issued ex_open (fst (snd (rotate_log ex_open ex_writer)))) =
     [''logs/20250307-090502.123456.log''] \<and>
   archives (issued ex_next (fst (snd (rotate_log ex_next ex_writer)))) =
     [''logs/20250307-090502.123457.log''] \<and>
   archives (issued ex_late (fst (snd (rotate_log ex_late ex_writer)))) =
     [''logs/20250307-090502.123456.log'']"
proof -
  let ?a = "rotate_log ex_open ex_writer"
  let ?b = "rotate_log ex_next ex_writer"
  let ?c = "rotate_log ex_late ex_writer"
  have ra: "fst ?a = None" and rb: "fst ?b = None" and rc: "fst ?c = None"
    by (simp_all add: rotate_log_def os_defs ex_defs Let_def ex_stamps filepath_Join_def)
  have a: "?a = (None, fst (snd ?a), snd (snd ?a))"
    and b: "?b = (None, fst (snd ?b), snd (snd ?b))"
    and c: "?c = (None, fst (snd ?c), snd (snd ?c))"
    using ra rb rc by (simp_all add: prod_eq_iff)
  have ok: "wall_clock_ok (clock ex_open (reads ex_open))"
    "wall_clock_ok (clock ex_next (reads ex_next))" "wall_clock_ok (clock ex_late (reads ex_late))"
    by (simp_all add: ex_defs wall_clock_ok_def)
  from archive_name_is_microsecond_stamp [OF a b _ ok(1,2)]
    archive_name_is_microsecond_stamp [OF a c _ ok(1,3)]
  show ?thesis
    by (simp add: ex_defs ex_stamps filepath_Join_def)
qed

lemma ex_two_rotations:
  "fst (run [CallWrite ''ab'', CallWrite ''cd''] ex_open ex_tiny) = [None, None] \<and>
   archives (issued ex_open (fst (snd (run [CallWrite ''ab'', CallWrite ''cd''] ex_open ex_tiny)))) =
     [''logs/20250307-090502.123456.log'', ''logs/20250307-090502.123456.log'']"
  by (simp add: Write_def flush_def rotate_log_def os_defs ex_defs Let_def ex_stamps
      filepath_Join_def int64_add_small issued_def)

text \<open>
  Claim C8 as stated fails when two rotations read the same microsecond: with a clock
  that shows the same wall time at both rotations, two flushes that each rotate rename
  the active file to the same archive path.
\<close>

theorem rotations_in_one_microsecond_share_a_name:
  "fst (run [CallWrite ''ab'', CallWrite ''cd''] ex_open ex_tiny) = [None, None] \<and>
   archives (issued ex_open (fst (snd (run [CallWrite ''ab'', CallWrite ''cd''] ex_open ex_tiny)))) =
     [''logs/20250307-090502.123456.log'', ''logs/20250307-090502.123456.log''] \<and>
   \<not> distinct (archives (issued ex_open
                  (fst (snd (run [CallWrite ''ab'', CallWrite ''cd''] ex_open ex_tiny)))))"
  using ex_two_rotations by simp

section \<open>Calls after Close\<close>

lemma flush_shut:
  assumes "shut w s"
  shows "flush w s = (if buf s = [] then None else Some ErrFileClosed, w, s)"
proof -
  from assms obtain h where h: "file_ptr s = Some h" "handles w h = None"
    by (auto simp: shut_def split: option.splits)
  then show ?thesis by (simp add: flush_def file_Stat_def)
qed

lemma Close_shut:
  assumes "shut w s"
  shows "Close w s = (Some ErrFileClosed, w, s)"
proof -
  from assms obtain h where h: "file_ptr s = Some h" "handles w h = None"
    by (auto simp: shut_def split: option.splits)
  then show ?thesis by (simp add: Close_def flush_shut [OF assms] file_Close_def)
qed

lemma Close_ok_shut:
  assumes "Close w s = (None, w1, s1)"
  shows "shut w1 s1"
proof -
  from Close_cases [OF assms] obtain w0 where "file_Close (file_ptr s1) w0 = (None, w1)"
    by auto
  from file_Close_ok [OF this] show ?thesis by (auto simp: shut_def)
qed

lemma Write_shut:
  assumes "shut w s" and "Write w s p = (r, w', s')"
  shows "shut w' s' \<and> trace w' = trace w \<and> names w' = names w \<and> data w' = data w"
proof -
  let ?s1 = "s\<lparr>buf := buf s @ p\<rparr>"
  have sh: "shut w1 ?s1" if "w1 = w \<or> w1 = w\<lparr>reads := reads w + 1\<rparr>" for w1
    using assms(1) that by (auto simp: shut_def split: option.splits)
  from Write_cases [OF assms(2)] show ?thesis
  proof
    assume "r = (length p, None) \<and> w' = w\<lparr>reads := reads w + 1\<rparr> \<and> s' = ?s1"
    with sh [of w'] show ?thesis by simp
  next
    assume "\<exists>w1 e. (w1 = w \<or> w1 = w\<lparr>reads := reads w + 1\<rparr>) \<and>
            flush w1 ?s1 = (e, w', s') \<and> r = (if e = None then length p else 0, e)"
    then obtain w1 e where w1: "w1 = w \<or> w1 = w\<lparr>reads := reads w + 1\<rparr>"
      and fl: "flush w1 ?s1 = (e, w', s')" by auto
    from fl flush_shut [OF sh [OF w1]] have "w' = w1" "s' = ?s1" by simp_all
    with sh [OF w1] w1 show ?thesis by auto
  qed
qed

lemma exec_call_shut:
  assumes "shut w s" and "exec_call c w s = (e, w', s')"
  shows "shut w' s' \<and> trace w' = trace w \<and> names w' = names w \<and> data w' = data w"
proof (cases c)
  case (CallWrite p)
  with assms(2) obtain r where "Write w s p = (r, w', s')"
    by (auto split: prod.splits)
  from Write_shut [OF assms(1) this] show ?thesis .
next
  case CallFlush
  with assms flush_shut [OF assms(1)] show ?thesis by (simp add: Flush_def)
next
  case CallClose
  with assms Close_shut [OF assms(1)] show ?thesis by simp
qed

lemma run_shut:
  "shut w s \<Longrightarrow> run cs w s = (es, w', s') \<Longrightarrow>
     shut w' s' \<and> trace w' = trace w \<and> names w' = names w \<and> data w' = data w"
proof (induction cs arbitrary: w s es)
  case Nil
  then show ?case by simp
next
  case (Cons c cs)
  obtain e w1 s1 where st: "exec_call c w s = (e, w1, s1)" by (cases "exec_call c w s")
  obtain es1 where rest: "run cs w1 s1 = (es1, w', s')"
    using Cons.prems(2) st by (auto split: prod.splits)
  from exec_call_shut [OF Cons.prems(1) st] Cons.IH [OF _ rest] show ?case by simp
qed

text \<open>
  Claim C2, as amended. Once \<^verbatim>\<open>Close\<close> has returned nil, whatever calls follow, none
  makes a system call or changes a file, and in the state they lead to: \<^verbatim>\<open>Close\<close>
  returns the closed-file error, \<^verbatim>\<open>Flush\<close> returns it when bytes are pending, and
  \<^verbatim>\<open>Write\<close> returns it with count 0 when the call has bytes to flush and reaches a
  flush threshold.
\<close>

theorem operations_after_Close:
  assumes "Close w s = (None, w1, s1)" and "run cs w1 s1 = (es, w2, s2)"
  shows "trace w2 = trace w1 \<and> names w2 = names w1 \<and> data w2 = data w1 \<and>
         Close w2 s2 = (Some ErrFileClosed, w2, s2) \<and>
         (buf s2 \<noteq> [] \<longrightarrow> Flush w2 s2 = (Some ErrFileClosed, w2, s2)) \<and>
         (\<forall>p. buf s2 @ p \<noteq> [] \<and>
               (maxBufSize s2 \<le> int (length (buf s2 @ p)) \<or>
                maxBufAge s2 \<le> time_Sub (clock w2 (reads w2)) (lastFlush s2)) \<longrightarrow>
               fst (Write w2 s2 p) = (0, Some ErrFileClosed))"
proof -
  from run_shut [OF Close_ok_shut [OF assms(1)] assms(2)]
  have sh: "shut w2 s2" and same: "trace w2 = trace w1" "names w2 = names w1" "data w2 = data w1"
    by simp_all
  have fl: "buf s2 \<noteq> [] \<longrightarrow> Flush w2 s2 = (Some ErrFileClosed, w2, s2)"
    using flush_shut [OF sh] by (simp add: Flush_def)
  have wr: "fst (Write w2 s2 p) = (0, Some ErrFileClosed)"
    if ne: "buf s2 @ p \<noteq> []"
      and trig: "maxBufSize s2 \<le> int (length (buf s2 @ p)) \<or>
                 maxBufAge s2 \<le> time_Sub (clock w2 (reads w2)) (lastFlush s2)" for p
  proof -
    let ?w = "if maxBufSize s2 \<le> int (length (buf s2 @ p)) then w2 else w2\<lparr>reads := reads w2 + 1\<rparr>"
    let ?s = "s2\<lparr>buf := buf s2 @ p\<rparr>"
    have "shut ?w ?s" using sh by (auto simp: shut_def split: option.splits)
    from flush_shut [OF this] ne have "flush ?w ?s = (Some ErrFileClosed, ?w, ?s)" by simp
    from Write_triggered [OF trig this] show ?thesis by simp
  qed
  from same Close_shut [OF sh] fl wr show ?thesis by blast
qed


lemma ex_Close_ok: "Close ex_open ex_small = (None, ex_shut, ex_small)"
  by (simp add: Close_def flush_def os_defs ex_defs)

lemma ex_Write_shut:
  "Write ex_shut ex_small ''a'' = ((1, None), ex_shut\<lparr>reads := 2\<rparr>, ex_small\<lparr>buf := ''a''\<rparr>)"
  by (simp add: Write_def Let_def os_defs ex_defs)

lemma ex_Flush_shut: "Flush ex_shut ex_small = (None, ex_shut, ex_small)"
  by (simp add: Flush_def flush_def ex_defs)

theorem operations_after_Close_witness:
  "Close ex_open ex_small = (None, ex_shut, ex_small) \<and>
   fst (Close (ex_shut\<lparr>reads := 2\<rparr>) (ex_small\<lparr>buf := ''a''\<rparr>)) = Some ErrFileClosed \<and>
   fst (Flush (ex_shut\<lparr>reads := 2\<rparr>) (ex_small\<lparr>buf := ''a''\<rparr>)) = Some ErrFileClosed \<and>
   fst (Write (ex_shut\<lparr>reads := 2\<rparr>) (ex_small\<lparr>buf := ''a''\<rparr>) ''b'') = (0, Some ErrFileClosed)"
proof -
  have rn: "run [CallWrite ''a''] ex_shut ex_small =
              ([None], ex_shut\<lparr>reads := 2\<rparr>, ex_small\<lparr>buf := ''a''\<rparr>)"
    by (simp add: ex_Write_shut)
  have b: "buf (ex_small\<lparr>buf := ''a''\<rparr>) \<noteq> []" by simp
  have t: "buf (ex_small\<lparr>buf := ''a''\<rparr>) @ ''b'' \<noteq> [] \<and>
           (maxBufSize (ex_small\<lparr>buf := ''a''\<rparr>) \<le> int (length (buf (ex_small\<lparr>buf := ''a''\<rparr>) @ ''b'')) \<or>
            maxBufAge (ex_small\<lparr>buf := ''a''\<rparr>)
              \<le> time_Sub (clock (ex_shut\<lparr>reads := 2\<rparr>) (reads (ex_shut\<lparr>reads := 2\<rparr>)))
                   (lastFlush (ex_small\<lparr>buf := ''a''\<rparr>)))"
    by (simp add: ex_defs)
  note inst = operations_after_Close [OF ex_Close_ok rn]
  from inst have c: "Close (ex_shut\<lparr>reads := 2\<rparr>) (ex_small\<lparr>buf := ''a''\<rparr>) =
                       (Some ErrFileClosed, ex_shut\<lparr>reads := 2\<rparr>, ex_small\<lparr>buf := ''a''\<rparr>)"
    by (elim conjE)
  from inst b have f: "Flush (ex_shut\<lparr>reads := 2\<rparr>) (ex_small\<lparr>buf := ''a''\<rparr>) =
                       (Some ErrFileClosed, ex_shut\<lparr>reads := 2\<rparr>, ex_small\<lparr>buf := ''a''\<rparr>)"
    by (elim conjE) (erule mp)
  from inst have "\<forall>p. buf (ex_small\<lparr>buf := ''a''\<rparr>) @ p \<noteq> [] \<and>
           (maxBufSize (ex_small\<lparr>buf := ''a''\<rparr>) \<le> int (length (buf (ex_small\<lparr>buf := ''a''\<rparr>) @ p)) \<or>
            maxBufAge (ex_small\<lparr>buf := ''a''\<rparr>)
              \<le> time_Sub (clock (ex_shut\<lparr>reads := 2\<rparr>) (reads (ex_shut\<lparr>reads := 2\<rparr>)))
                   (lastFlush (ex_small\<lparr>buf := ''a''\<rparr>))) \<longrightarrow>
           fst (Write (ex_shut\<lparr>reads := 2\<rparr>) (ex_small\<lparr>buf := ''a''\<rparr>) p) = (0, Some ErrFileClosed)"
    by (elim conjE)
  with t have w: "fst (Write (ex_shut\<lparr>reads := 2\<rparr>) (ex_small\<lparr>buf := ''a''\<rparr>) ''b'') = (0, Some ErrFileClosed)"
    by (elim allE [of _ "''b''"]) (erule mp)
  from ex_Close_ok c f w show ?thesis by simp
qed

text \<open>
  Claim C2 as stated fails: after a \<^verbatim>\<open>Close\<close> that returned nil, a \<^verbatim>\<open>Write\<close> below
  the thresholds only appends to the buffer and returns nil, and a \<^verbatim>\<open>Flush\<close> with an
  empty buffer returns nil.
\<close>

theorem Write_and_Flush_after_Close_return_nil:
  "Close ex_open ex_small = (None, ex_shut, ex_small) \<and>
   Write ex_shut ex_small ''a'' = ((1, None), ex_shut\<lparr>reads := 2\<rparr>, ex_small\<lparr>buf := ''a''\<rparr>) \<and>
   Flush ex_shut ex_small = (None, ex_shut, ex_small)"
  using ex_Close_ok ex_Write_shut ex_Flush_shut by simp

section \<open>Round trip\<close>

lemma grows_refl: "grows w w"
  by (simp add: grows_def)

lemma grows_trans: "grows w w1 \<Longrightarrow> grows w1 w2 \<Longrightarrow> grows w w2"
  by (auto simp: grows_def)

lemma grows_reads: "grows w (w\<lparr>reads := n\<rparr>)"
  by (simp add: grows_def)

lemma file_Stat_grows: "file_Stat f w = (r, w') \<Longrightarrow> grows w w'"
  by (auto simp: file_Stat_def logged_def grows_def split: option.splits)

lemma file_Write_grows: "file_Write f b w = (r, w') \<Longrightarrow> grows w w'"
  by (auto simp: file_Write_def logged_def grows_def split: option.splits)

lemma file_Sync_grows: "file_Sync f w = (r, w') \<Longrightarrow> grows w w'"
  by (auto simp: file_Sync_def logged_def grows_def split: option.splits)

lemma file_Close_grows: "file_Close f w = (r, w') \<Longrightarrow> grows w w'"
  by (auto simp: file_Close_def logged_def grows_def split: option.splits)

lemma os_Rename_grows: "os_Rename old new w = (r, w') \<Longrightarrow> grows w w'"
  by (auto simp: os_Rename_def logged_def grows_def split: option.splits if_splits)

lemma os_OpenFile_grows: "os_OpenFile p w = (r, w') \<Longrightarrow> grows w w'"
  by (auto simp: os_OpenFile_def logged_def grows_def Let_def split: option.splits if_splits)

lemma pre_close_grows:
  "file_ptr s = None \<and> w1 = w \<or> file_Close (file_ptr s) w = (None, w1) \<and> file_ptr s \<noteq> None \<Longrightarrow>
   grows w (w1\<lparr>reads := reads w1 + 1\<rparr>)"
  by (auto simp: grows_def dest!: file_Close_ok)

lemma rotate_grows:
  assumes "rotate_log w s = (r, w', s')"
  shows "grows w w'"
  using assms
proof (cases rule: rotate_elim)
  case (close_fail h e)
  then show ?thesis by (auto dest: file_Close_grows)
next
  case (rename_fail w1 e)
  from pre_close_grows [OF rename_fail(1)] os_Rename_grows [OF rename_fail(2)]
  show ?thesis by (rule grows_trans)
next
  case (open_fail w1 w3 e)
  from grows_trans [OF pre_close_grows [OF open_fail(1)] os_Rename_grows [OF open_fail(2)]]
    os_OpenFile_grows [OF open_fail(3)]
  show ?thesis by (rule grows_trans)
next
  case (ok w1 w3 h')
  from grows_trans [OF pre_close_grows [OF ok(1)] os_Rename_grows [OF ok(2)]]
    os_OpenFile_grows [OF ok(3)]
  show ?thesis by (rule grows_trans)
qed

lemma staged_grows:
  "(if c then rotate_log w1 s else (None, w1, s)) = (r, w2, s2) \<Longrightarrow> grows w1 w2"
  by (auto simp: grows_refl dest: rotate_grows split: if_splits)

lemma flush_grows:
  assumes "flush w s = (r, w', s')"
  shows "grows w w'"
  using assms
proof (cases rule: flush_elim)
  case nil
  then show ?thesis by (simp add: grows_refl)
next
  case empty
  then show ?thesis by (simp add: grows_refl)
next
  case (stat_fail e)
  from stat_fail(3) show ?thesis by (rule file_Stat_grows)
next
  case (rotate_fail sz w1 e)
  from file_Stat_grows [OF rotate_fail(3)] rotate_grows [OF rotate_fail(5)]
  show ?thesis by (rule grows_trans)
next
  case (write_fail sz w1 w2 s2 e)
  from grows_trans [OF file_Stat_grows [OF write_fail(3)] staged_grows [OF write_fail(4)]]
    file_Write_grows [OF write_fail(5)]
  show ?thesis by (rule grows_trans)
next
  case (sync_fail sz w1 w2 s2 n w3 e)
  from grows_trans [OF grows_trans [OF file_Stat_grows [OF sync_fail(3)] staged_grows [OF sync_fail(4)]]
      file_Write_grows [OF sync_fail(5)]]
    file_Sync_grows [OF sync_fail(6)]
  show ?thesis by (rule grows_trans)
next
  case (ok sz w1 w2 s2 n w3 w4)
  have "grows w4 w'" unfolding ok(8) by (rule grows_reads)
  with grows_trans [OF grows_trans [OF grows_trans [OF file_Stat_grows [OF ok(3)] staged_grows [OF ok(4)]]
      file_Write_grows [OF ok(5)]] file_Sync_grows [OF ok(6)]]
  show ?thesis by (rule grows_trans)
qed

lemma Write_grows:
  assumes "Write w s p = (r, w', s')"
  shows "grows w w'"
proof -
  from Write_cases [OF assms] show ?thesis
  proof
    assume "r = (length p, None) \<and> w' = w\<lparr>reads := reads w + 1\<rparr> \<and> s' = s\<lparr>buf := buf s @ p\<rparr>"
    then show ?thesis by (simp add: grows_reads)
  next
    assume "\<exists>w1 e. (w1 = w \<or> w1 = w\<lparr>reads := reads w + 1\<rparr>) \<and>
            flush w1 (s\<lparr>buf := buf s @ p\<rparr>) = (e, w', s') \<and> r = (if e = None then length p else 0, e)"
    then obtain w1 e where w1: "w1 = w \<or> w1 = w\<lparr>reads := reads w + 1\<rparr>"
      and fl: "flush w1 (s\<lparr>buf := buf s @ p\<rparr>) = (e, w', s')" by auto
    from w1 have "grows w w1" by (auto simp: grows_def)
    from this flush_grows [OF fl] show ?thesis by (rule grows_trans)
  qed
qed

lemma Close_grows:
  assumes "Close w s = (r, w', s')"
  shows "grows w w'"
proof -
  from Close_cases [OF assms] show ?thesis
  proof
    assume "\<exists>e. r = Some e \<and> flush w s = (Some e, w', s')"
    then show ?thesis by (auto dest: flush_grows)
  next
    assume "\<exists>w1. flush w s = (None, w1, s') \<and> file_Close (file_ptr s') w1 = (r, w')"
    then obtain w1 where a: "flush w s = (None, w1, s')" and b: "file_Close (file_ptr s') w1 = (r, w')"
      by auto
    from flush_grows [OF a] file_Close_grows [OF b] show ?thesis by (rule grows_trans)
  qed
qed

lemma exec_call_grows:
  assumes "exec_call c w s = (e, w', s')"
  shows "grows w w'"
proof (cases c)
  case (CallWrite p)
  with assms obtain r where "Write w s p = (r, w', s')" by (auto split: prod.splits)
  then show ?thesis by (rule Write_grows)
next
  case CallFlush
  with assms show ?thesis by (auto simp: Flush_def dest: flush_grows)
next
  case CallClose
  with assms show ?thesis by (auto dest: Close_grows)
qed

lemma run_grows: "run cs w s = (es, w', s') \<Longrightarrow> grows w w'"
proof (induction cs arbitrary: w s es)
  case Nil
  then show ?case by (simp add: grows_refl)
next
  case (Cons c cs)
  obtain e w1 s1 where st: "exec_call c w s = (e, w1, s1)" by (cases "exec_call c w s")
  obtain es1 where rest: "run cs w1 s1 = (es1, w', s')"
    using Cons.prems st by (auto split: prod.splits)
  from exec_call_grows [OF st] Cons.IH [OF rest] show ?case by (rule grows_trans)
qed

lemma archives_append: "archives (xs @ ys) = archives xs @ archives ys"
  by (induction xs rule: archives.induct) simp_all

lemma issued_trans:
  "grows w w1 \<Longrightarrow> grows w1 w2 \<Longrightarrow> issued w w2 = issued w w1 @ issued w1 w2"
  by (auto simp: grows_def issued_def)

lemma log_inv_cong:
  assumes "names w' = names w" and "next_ino w' = next_ino w"
    and "\<forall>h j. file_ptr s' = Some h \<and> handles w' h = Some j \<longrightarrow>
          file_ptr s = Some h \<and> handles w h = Some j"
    and "filePath s' = filePath s" and "log_inv D w s arch"
  shows "log_inv D w' s' arch"
  using assms(5) assms(3) unfolding log_inv_def wf_world_def assms(1,2,4)
  by blast

lemma file_Stat_ok:
  "file_Stat f w = (Inr sz, w1) \<Longrightarrow>
     \<exists>h i. f = Some h \<and> handles w h = Some i \<and> w1 = w\<lparr>trace := trace w @ [(FStat h, None)]\<rparr>"
  by (auto simp: file_Stat_def logged_def split: option.splits)

lemma archive_content_kept:
  assumes "log_inv D w s arch" and "names w (filePath s) = Some j"
    and "names w' = names w" and "\<forall>k. k \<noteq> j \<longrightarrow> data w' k = data w k"
  shows "map (file_content w') arch = map (file_content w) arch"
proof (rule map_cong [OF refl])
  fix a assume a: "a \<in> set arch"
  with assms(1) have ne: "a \<noteq> filePath s" and dom: "a \<in> dom (names w)"
    and inj: "inj_on (names w) (insert (filePath s) (set arch))"
    by (auto simp: log_inv_def)
  from dom obtain k where k: "names w a = Some k" by auto
  from inj a ne have "names w a \<noteq> names w (filePath s)"
    by (auto simp: inj_on_def)
  with k assms(2) have "k \<noteq> j" by simp
  with k assms(3,4) show "file_content w' a = file_content w a"
    by (simp add: file_content_def)
qed

lemma write_sync_log:
  assumes inv: "log_inv D w2 s2 arch"
    and wr: "file_Write (file_ptr s2) (buf s2) w2 = (Inr n, w3)"
    and sy: "file_Sync (file_ptr s2) w3 = (None, w4)"
  shows "log_inv D (w4\<lparr>reads := r\<rparr>) (s2\<lparr>buf := [], lastFlush := t\<rparr>) arch \<and>
         log_bytes (w4\<lparr>reads := r\<rparr>) (s2\<lparr>buf := [], lastFlush := t\<rparr>) arch = log_bytes w2 s2 arch \<and>
         archives (issued w2 (w4\<lparr>reads := r\<rparr>)) = []"
proof -
  from file_Write_ok [OF wr] obtain h j where h: "file_ptr s2 = Some h" "handles w2 h = Some j"
    and w3: "w3 = w2\<lparr>data := (data w2)(j := data w2 j @ buf s2),
                     trace := trace w2 @ [(FWrite h (buf s2), None)]\<rparr>"
    by auto
  from file_Sync_ok [OF sy] h(1) have w4: "w4 = w3\<lparr>trace := trace w3 @ [(FSync h, None)]\<rparr>"
    by auto
  from inv h have act: "names w2 (filePath s2) = Some j" by (auto simp: log_inv_def)
  let ?w = "w4\<lparr>reads := r\<rparr>" and ?s = "s2\<lparr>buf := [], lastFlush := t\<rparr>"
  have a: "log_inv D ?w ?s arch"
    by (rule log_inv_cong [OF _ _ _ _ inv]) (simp_all add: w3 w4)
  have m1: "map (file_content ?w) arch = map (file_content w2) arch"
    using inv act by (rule archive_content_kept) (simp_all add: w3 w4)
  have m2: "file_content ?w (filePath s2) = file_content w2 (filePath s2) @ buf s2"
    using act by (simp add: file_content_def w3 w4)
  have b: "log_bytes ?w ?s arch = log_bytes w2 s2 arch"
    unfolding log_bytes_def by (simp only: m1) (simp add: m2)
  have c: "archives (issued w2 ?w) = []"
    by (simp add: issued_def w3 w4)
  from a b c show ?thesis by (intro conjI)
qed

lemma rotate_log_ok:
  assumes ro: "rotate_log w s = (None, w', s')" and h: "file_ptr s = Some h"
    and t: "t = filepath_Join (dirPath s) (time_Format (clock w (reads w)) @ ''.log'')"
    and ne: "t \<noteq> filePath s"
  shows "s' = s\<lparr>file_ptr := Some (next_fd w)\<rparr> \<and>
         names w' = (names w)(t := names w (filePath s), filePath s \<mapsto> next_ino w) \<and>
         data w' = (data w)(next_ino w := []) \<and> next_ino w' = next_ino w + 1 \<and>
         handles w' (next_fd w) = Some (next_ino w) \<and>
         archives (issued w w') = [t]"
  using ro
proof (cases rule: rotate_elim)
  case (ok w1 w3 h')
  from ok(1) h have "file_Close (Some h) w = (None, w1)" by auto
  from file_Close_ok [OF this] have w1: "w1 = w\<lparr>handles := (handles w)(h := None),
      trace := trace w @ [(FClose h, None)]\<rparr>" by auto
  from ok(2) have rn: "os_Rename (filePath s) t (w1\<lparr>reads := reads w1 + 1\<rparr>) = (None, w3)"
    by (simp add: t w1)
  from os_Rename_ok [OF rn ne [symmetric]]
  have w3: "w3 = w1\<lparr>reads := reads w1 + 1,
                    names := (names w1)(t := names w1 (filePath s), filePath s := None),
                    trace := trace w1 @ [(Rename (filePath s) t, None)]\<rparr>"
    by simp
  then have "names w3 (filePath s) = None" by simp
  from os_OpenFile_new [OF ok(3) this]
  have h': "h' = next_fd w3"
    and w': "w' = w3\<lparr>names := (names w3)(filePath s \<mapsto> next_ino w3),
                    data := (data w3)(next_ino w3 := []),
                    next_ino := next_ino w3 + 1, handles := (handles w3)(next_fd w3 \<mapsto> next_ino w3),
                    next_fd := next_fd w3 + 1, trace := trace w3 @ [(OpenFile (filePath s), None)]\<rparr>"
    by simp_all
  from ok(5) h' have a: "s' = s\<lparr>file_ptr := Some (next_fd w)\<rparr>" by (simp add: w3 w1)
  have b: "names w' = (names w)(t := names w (filePath s), filePath s \<mapsto> next_ino w)"
    by (simp add: w' w3 w1)
  have c: "data w' = (data w)(next_ino w := [])" "next_ino w' = next_ino w + 1"
    "handles w' (next_fd w) = Some (next_ino w)"
    by (simp_all add: w' w3 w1)
  have d: "archives (issued w w') = [t]"
    by (simp add: issued_def w' w3 w1)
  from a b c d show ?thesis by (intro conjI)
qed simp_all

lemma rotate_log_inv:
  assumes ro: "rotate_log w s = (None, w', s')" and h: "file_ptr s = Some h"
    and inv: "log_inv D w s arch"
    and fresh: "distinct (arch @ archives (issued w w'))"
      "set (arch @ archives (issued w w')) \<inter> D = {}"
  shows "log_inv D w' s' (arch @ archives (issued w w')) \<and>
         log_bytes w' s' (arch @ archives (issued w w')) = log_bytes w s arch"
proof -
  define t where "t = filepath_Join (dirPath s) (time_Format (clock w (reads w)) @ ''.log'')"
  define fp where "fp = filePath s"
  define n where "n = next_ino w"
  from rotate_archives [OF ro] have ar: "archives (issued w w') = [t]" by (simp add: t_def)
  from fresh ar have tD: "t \<notin> D" and ta: "t \<notin> set arch" by auto
  from inv have fpD: "fp \<in> D" and wf: "\<forall>p k. names w p = Some k \<longrightarrow> k < n"
    and di: "distinct arch" and aD: "set arch \<inter> D = {}"
    and adom: "set arch \<subseteq> dom (names w)" and domD: "dom (names w) \<subseteq> D \<union> set arch"
    and inj: "inj_on (names w) (insert fp (set arch))"
    by (simp_all add: log_inv_def wf_world_def fp_def n_def)
  from inv obtain i where i: "names w fp = Some i" by (auto simp: log_inv_def fp_def)
  from tD fpD have ne: "t \<noteq> filePath s" by (auto simp: fp_def)
  from tD ta domD have tn: "names w t = None" by auto
  from fpD aD have fpa: "fp \<notin> set arch" by auto
  from rotate_log_ok [OF ro h t_def ne]
  have s': "s' = s\<lparr>file_ptr := Some (next_fd w)\<rparr>"
    and nm: "names w' = (names w)(t \<mapsto> i, fp \<mapsto> n)"
    and dt: "data w' = (data w)(n := [])" and ni: "next_ino w' = n + 1"
    and hd: "handles w' (next_fd w) = Some n"
    by (simp_all add: i [unfolded fp_def] fp_def n_def)
  have inja: "x = y" if "x \<in> set arch" "y \<in> set arch" "names w x = names w y" for x y
    using inj that unfolding inj_on_def by blast
  have old: "names w' a = names w a \<and> a \<noteq> fp \<and> a \<noteq> t \<and> (\<exists>k. names w a = Some k \<and> k < n \<and> k \<noteq> i)"
    if a: "a \<in> set arch" for a
  proof -
    from a fpa ta have d: "a \<noteq> fp" "a \<noteq> t" by auto
    from a adom obtain k where k: "names w a = Some k" by auto
    have "names w a \<noteq> names w fp"
    proof
      assume "names w a = names w fp"
      with inj a have "a = fp" unfolding inj_on_def by blast
      with d show False by simp
    qed
    with i k have ki: "k \<noteq> i" by simp
    from wf k have kn: "k < n" by blast
    from d have "names w' a = names w a" by (simp add: nm)
    with d k kn ki show ?thesis by simp
  qed
  from i wf have il: "i < n" by auto
  have wf': "wf_world w'"
    unfolding wf_world_def ni nm
  proof (intro allI impI)
    fix p k assume "((names w)(t \<mapsto> i, fp \<mapsto> n)) p = Some k"
    then have "k = n \<or> k = i \<or> names w p = Some k" by (auto split: if_splits)
    moreover have "k < n" if "names w p = Some k" using wf that by blast
    ultimately show "k < n + 1" using il by auto
  qed
  have nfp: "names w' fp = Some n" by (simp add: nm)
  have nt: "names w' t = Some i" using ne by (simp add: nm fp_def)
  have inj': "inj_on (names w') (insert fp (set (arch @ [t])))"
  proof (rule inj_onI)
    fix x y
    assume x: "x \<in> insert fp (set (arch @ [t]))" and y: "y \<in> insert fp (set (arch @ [t]))"
      and e: "names w' x = names w' y"
    from x consider "x = fp" | "x = t" | "x \<in> set arch" by auto
    then show "x = y"
    proof cases
      case 1
      from y consider "y = fp" | "y = t" | "y \<in> set arch" by auto
      then show ?thesis
      proof cases
        case 1 with \<open>x = fp\<close> show ?thesis by simp
      next
        case 2 with \<open>x = fp\<close> e nfp nt il show ?thesis by simp
      next
        case 3 from old [OF 3] \<open>x = fp\<close> e nfp show ?thesis by auto
      qed
    next
      case 2
      from y consider "y = fp" | "y = t" | "y \<in> set arch" by auto
      then show ?thesis
      proof cases
        case 1 with \<open>x = t\<close> e nfp nt il show ?thesis by simp
      next
        case 2 with \<open>x = t\<close> show ?thesis by simp
      next
        case 3 from old [OF 3] \<open>x = t\<close> e nt show ?thesis by auto
      qed
    next
      case 3
      note ox = old [OF 3]
      from y consider "y = fp" | "y = t" | "y \<in> set arch" by auto
      then show ?thesis
      proof cases
        case 1 with ox e nfp show ?thesis by auto
      next
        case 2 with ox e nt show ?thesis by auto
      next
        case c: 3
        from ox old [OF c] e have "names w x = names w y" by simp
        with 3 c show ?thesis by (rule inja)
      qed
    qed
  qed
  have a: "log_inv D w' s' (arch @ archives (issued w w'))"
    unfolding log_inv_def ar
  proof (intro conjI)
    show "wf_world w'" by (rule wf')
    show "filePath s' \<in> D" using fpD by (simp add: s' fp_def)
    show "names w' (filePath s') \<noteq> None" by (simp add: s' nm fp_def)
    show "\<forall>h j. file_ptr s' = Some h \<and> handles w' h = Some j \<longrightarrow> names w' (filePath s') = Some j"
      using hd by (simp add: s' nm fp_def)
    show "distinct (arch @ [t])" using di ta by simp
    show "set (arch @ [t]) \<inter> D = {}" using aD tD by simp
    show "set (arch @ [t]) \<subseteq> dom (names w')" using adom by (auto simp: nm)
    show "dom (names w') \<subseteq> D \<union> set (arch @ [t])" using domD fpD by (auto simp: nm)
    show "inj_on (names w') (insert (filePath s') (set (arch @ [t])))"
      using inj' by (simp add: s' fp_def)
  qed
  have m: "map (file_content w') arch = map (file_content w) arch"
  proof (rule map_cong [OF refl])
    fix a assume "a \<in> set arch"
    from old [OF this] show "file_content w' a = file_content w a"
      by (auto simp: file_content_def dt)
  qed
  have ct: "file_content w' t = file_content w fp"
    using il ne by (simp add: file_content_def nm dt i [unfolded fp_def] fp_def)
  have cf: "file_content w' fp = []"
    by (simp add: file_content_def nm dt)
  have b: "log_bytes w' s' (arch @ archives (issued w w')) = log_bytes w s arch"
    unfolding log_bytes_def ar
    by (simp only: map_append m) (simp add: ct [unfolded fp_def] cf [unfolded fp_def] s')
  from a b show ?thesis by (intro conjI)
qed

lemma issued_self: "issued w w = []"
  by (simp add: issued_def)

lemma log_bytes_cong:
  assumes "names w' = names w" and "data w' = data w" and "filePath s' = filePath s"
    and "buf s' = buf s"
  shows "log_bytes w' s' arch = log_bytes w s arch"
proof -
  have "file_content w' = file_content w"
    by (rule ext) (simp add: file_content_def assms(1,2) split: option.splits)
  then show ?thesis by (simp add: log_bytes_def assms(3,4))
qed

lemma flush_log:
  assumes fl: "flush w s = (None, w', s')" and inv: "log_inv D w s arch"
    and fresh: "distinct (arch @ archives (issued w w'))"
      "set (arch @ archives (issued w w')) \<inter> D = {}"
  shows "log_inv D w' s' (arch @ archives (issued w w')) \<and>
         log_bytes w' s' (arch @ archives (issued w w')) = log_bytes w s arch"
  using fl
proof (cases rule: flush_elim)
  case empty
  with inv show ?thesis by (simp add: issued_self)
next
  case (ok sz w1 w2 s2 n w3 w4)
  from file_Stat_ok [OF ok(3)] obtain h where h: "file_ptr s = Some h"
    and w1: "w1 = w\<lparr>trace := trace w @ [(FStat h, None)]\<rparr>" by auto
  have inv1: "log_inv D w1 s arch"
    by (rule log_inv_cong [OF _ _ _ _ inv]) (simp_all add: w1)
  have by1: "log_bytes w1 s arch = log_bytes w s arch"
    by (rule log_bytes_cong) (simp_all add: w1)
  have g1: "grows w w1" by (simp add: w1 grows_def)
  have g2: "grows w1 w2" using ok(4) by (rule staged_grows)
  have g3: "grows w2 w'"
    using grows_trans [OF grows_trans [OF file_Write_grows [OF ok(5)] file_Sync_grows [OF ok(6)]]
        grows_reads [of w4 "reads w4 + 1"]]
    by (simp add: ok(8))
  have a1: "archives (issued w w1) = []" by (simp add: w1 issued_def)
  have split: "issued w w' = issued w w1 @ issued w1 w2 @ issued w2 w'"
    using issued_trans [OF g1 grows_trans [OF g2 g3]] issued_trans [OF g2 g3] by simp
  have stage: "log_inv D w2 s2 (arch @ archives (issued w1 w2)) \<and>
               log_bytes w2 s2 (arch @ archives (issued w1 w2)) = log_bytes w1 s arch"
  proof (cases "maxFileSize s \<le> int64_add sz (int (length (buf s)))")
    case True
    with ok(4) have ro: "rotate_log w1 s = (None, w2, s2)" by simp
    from fresh have f: "distinct (arch @ archives (issued w1 w2))"
      "set (arch @ archives (issued w1 w2)) \<inter> D = {}"
      by (auto simp: split archives_append a1)
    from rotate_log_inv [OF ro h inv1 f] show ?thesis .
  next
    case False
    with ok(4) have "w2 = w1" "s2 = s" by simp_all
    with inv1 show ?thesis by (simp add: issued_self)
  qed
  from stage have inv2: "log_inv D w2 s2 (arch @ archives (issued w1 w2))" by (rule conjunct1)
  note ws = write_sync_log [OF inv2 ok(5) ok(6), of "reads w4 + 1" "clock w4 (reads w4)"]
  from ws have a3: "archives (issued w2 w') = []" by (simp add: ok(8))
  have ar: "archives (issued w w') = archives (issued w1 w2)"
    by (simp add: split archives_append a1 a3)
  from ws stage by1 show ?thesis
    unfolding ar by (simp add: ok(8) ok(9))
qed simp_all

lemma issued_same_trace: "trace w1 = trace w \<Longrightarrow> issued w1 w' = issued w w'"
  by (simp add: issued_def)

lemma Write_log:
  assumes wr: "Write w s p = ((n, None), w', s')" and inv: "log_inv D w s arch"
    and fresh: "distinct (arch @ archives (issued w w'))"
      "set (arch @ archives (issued w w')) \<inter> D = {}"
  shows "log_inv D w' s' (arch @ archives (issued w w')) \<and>
         log_bytes w' s' (arch @ archives (issued w w')) = log_bytes w s arch @ p"
proof -
  let ?s1 = "s\<lparr>buf := buf s @ p\<rparr>"
  have by1: "log_bytes w1 ?s1 arch = log_bytes w s arch @ p"
    if "names w1 = names w" "data w1 = data w" for w1
  proof -
    have "log_bytes w1 ?s1 arch = log_bytes w ?s1 arch"
      using that by (intro log_bytes_cong) simp_all
    then show ?thesis by (simp add: log_bytes_def)
  qed
  from Write_cases [OF wr] show ?thesis
  proof
    assume a: "(n, None) = (length p, None) \<and> w' = w\<lparr>reads := reads w + 1\<rparr> \<and> s' = ?s1"
    then have w': "w' = w\<lparr>reads := reads w + 1\<rparr>" and s': "s' = ?s1" by simp_all
    have "log_inv D w' s' arch"
      by (rule log_inv_cong [OF _ _ _ _ inv]) (simp_all add: w' s')
    moreover have "log_bytes w' s' arch = log_bytes w s arch @ p"
      unfolding s' by (rule by1) (simp_all add: w')
    moreover have "archives (issued w w') = []" by (simp add: w' issued_def)
    ultimately show ?thesis by simp
  next
    assume "\<exists>w1 e. (w1 = w \<or> w1 = w\<lparr>reads := reads w + 1\<rparr>) \<and>
            flush w1 ?s1 = (e, w', s') \<and> (n, None) = (if e = None then length p else 0, e)"
    then obtain w1 where w1: "w1 = w \<or> w1 = w\<lparr>reads := reads w + 1\<rparr>"
      and fl: "flush w1 ?s1 = (None, w', s')" by auto
    from w1 have same: "names w1 = names w" "data w1 = data w" "next_ino w1 = next_ino w"
      "handles w1 = handles w" "trace w1 = trace w" by auto
    have inv1: "log_inv D w1 ?s1 arch"
      by (rule log_inv_cong [OF _ _ _ _ inv]) (simp_all add: same)
    have iss: "issued w1 w' = issued w w'" using same(5) by (rule issued_same_trace)
    from flush_log [OF fl inv1] fresh by1 [OF same(1,2)] show ?thesis
      unfolding iss by simp
  qed
qed

lemma Close_log:
  assumes cl: "Close w s = (None, w', s')" and inv: "log_inv D w s arch"
    and fresh: "distinct (arch @ archives (issued w w'))"
      "set (arch @ archives (issued w w')) \<inter> D = {}"
  shows "log_inv D w' s' (arch @ archives (issued w w')) \<and>
         log_bytes w' s' (arch @ archives (issued w w')) = log_bytes w s arch"
proof -
  from Close_cases [OF cl] obtain w1 where fl: "flush w s = (None, w1, s')"
    and fc: "file_Close (file_ptr s') w1 = (None, w')" by auto
  from file_Close_ok [OF fc] obtain h where
    w': "w' = w1\<lparr>handles := (handles w1)(h := None), trace := trace w1 @ [(FClose h, None)]\<rparr>"
    by auto
  have g: "grows w w1" using fl by (rule flush_grows)
  have g': "grows w1 w'" by (simp add: w' grows_def)
  have ar: "archives (issued w w') = archives (issued w w1)"
    unfolding issued_trans [OF g g'] archives_append by (simp add: w' issued_def)
  from flush_log [OF fl inv] fresh
  have a: "log_inv D w1 s' (arch @ archives (issued w w1))"
    and b: "log_bytes w1 s' (arch @ archives (issued w w1)) = log_bytes w s arch"
    unfolding ar by simp_all
  have "log_inv D w' s' (arch @ archives (issued w w1))"
    by (rule log_inv_cong [OF _ _ _ _ a]) (auto simp: w' split: if_splits)
  moreover have "log_bytes w' s' (arch @ archives (issued w w1)) =
                 log_bytes w1 s' (arch @ archives (issued w w1))"
    by (rule log_bytes_cong) (simp_all add: w')
  ultimately show ?thesis unfolding ar using b by simp
qed

lemma exec_call_log:
  assumes ex: "exec_call c w s = (None, w', s')" and inv: "log_inv D w s arch"
    and fresh: "distinct (arch @ archives (issued w w'))"
      "set (arch @ archives (issued w w')) \<inter> D = {}"
  shows "log_inv D w' s' (arch @ archives (issued w w')) \<and>
         log_bytes w' s' (arch @ archives (issued w w')) = log_bytes w s arch @ written [c]"
proof (cases c)
  case (CallWrite p)
  with ex obtain n where "Write w s p = ((n, None), w', s')"
    by (auto split: prod.splits)
  from Write_log [OF this inv fresh] CallWrite show ?thesis by simp
next
  case CallFlush
  with ex have "flush w s = (None, w', s')" by (simp add: Flush_def)
  from flush_log [OF this inv fresh] CallFlush show ?thesis by simp
next
  case CallClose
  with ex have "Close w s = (None, w', s')" by simp
  from Close_log [OF this inv fresh] CallClose show ?thesis by simp
qed

lemma written_Cons: "written (c # cs) = written [c] @ written cs"
  by (cases c) simp_all

lemma run_log:
  "run cs w s = (es, w', s') \<Longrightarrow> \<forall>e \<in> set es. e = None \<Longrightarrow> log_inv D w s arch \<Longrightarrow>
   distinct (arch @ archives (issued w w')) \<Longrightarrow>
   set (arch @ archives (issued w w')) \<inter> D = {} \<Longrightarrow>
   log_inv D w' s' (arch @ archives (issued w w')) \<and>
   log_bytes w' s' (arch @ archives (issued w w')) = log_bytes w s arch @ written cs"
proof (induction cs arbitrary: w s es arch)
  case Nil
  then show ?case by (simp add: issued_self)
next
  case (Cons c cs)
  obtain e w1 s1 where st: "exec_call c w s = (e, w1, s1)" by (cases "exec_call c w s")
  obtain es1 where rest: "run cs w1 s1 = (es1, w', s')" and es: "es = e # es1"
    using Cons.prems(1) st by (auto split: prod.splits)
  from es Cons.prems(2) have e: "e = None" and es1: "\<forall>e \<in> set es1. e = None" by simp_all
  note st' = st [unfolded e]
  have sp: "archives (issued w w') = archives (issued w w1) @ archives (issued w1 w')"
    unfolding issued_trans [OF exec_call_grows [OF st] run_grows [OF rest]] archives_append ..
  from Cons.prems(4,5) have f1: "distinct (arch @ archives (issued w w1))"
    "set (arch @ archives (issued w w1)) \<inter> D = {}"
    unfolding sp by auto
  note step = exec_call_log [OF st' Cons.prems(3) f1]
  from Cons.prems(4,5) have f2: "distinct ((arch @ archives (issued w w1)) @ archives (issued w1 w'))"
    "set ((arch @ archives (issued w w1)) @ archives (issued w1 w')) \<inter> D = {}"
    unfolding sp by simp_all
  from Cons.IH [OF rest es1 step [THEN conjunct1] f2] step [THEN conjunct2]
  show ?case unfolding sp by (simp add: written_Cons [of c cs])
qed

lemma apply_opts_keep:
  "buf (foldl (\<lambda>s opt. apply_opt opt s) s opts) = buf s \<and>
   file_ptr (foldl (\<lambda>s opt. apply_opt opt s) s opts) = file_ptr s \<and>
   dirPath (foldl (\<lambda>s opt. apply_opt opt s) s opts) = dirPath s"
proof (induction opts arbitrary: s)
  case Nil
  then show ?case by simp
next
  case (Cons opt opts)
  show ?case by (cases opt) (simp_all add: Cons.IH)
qed

lemma os_Stat_ok:
  "os_Stat p w = (Inr b, w1) \<Longrightarrow> \<exists>r. w1 = w\<lparr>trace := trace w @ [(Stat p, r)]\<rparr>"
  by (auto simp: os_Stat_def logged_def split: option.splits if_splits)

lemma os_OpenFile_wf:
  assumes "os_OpenFile p w = (Inr h, w')" and "wf_world w"
  shows "wf_world w' \<and> names w' p \<noteq> None \<and> handles w' h = names w' p"
proof (cases "names w p")
  case None
  from os_OpenFile_new [OF assms(1) None] assms(2) show ?thesis
    by (auto simp: wf_world_def less_Suc_eq split: if_splits)
next
  case (Some i)
  with assms show ?thesis
    by (auto simp: os_OpenFile_def logged_def Let_def wf_world_def split: option.splits if_splits)
qed

lemma New_log:
  assumes nw: "New w d opts = (Inr s0, w0)" and wf: "wf_world w"
  shows "log_inv (dom (names w0)) w0 s0 [] \<and> buf s0 = []"
proof -
  let ?s0 = "\<lparr>dirPath = d, filePath = [], maxFileSize = DefaultMaxFileSize,
              maxBufSize = DefaultMaxBufSize, maxBufAge = DefaultMaxBuffAge,
              lastFlush = clock w (reads w), mutex = False, file_ptr = None, buf = []\<rparr>"
  let ?s1 = "foldl (\<lambda>s opt. apply_opt opt s) ?s0 opts"
  let ?s2 = "?s1\<lparr>filePath := filepath_Join (dirPath ?s1) ''latest.log''\<rparr>"
  obtain rs w1 where st: "os_Stat d w = (rs, w1)" by (cases "os_Stat d w")
  from nw st obtain b where rs: "rs = Inr b"
    by (cases rs) (auto simp: New_def split: if_splits)
  from os_Stat_ok [OF st [unfolded rs]] obtain r where
    w1: "w1 = w\<lparr>trace := trace w @ [(Stat d, r)]\<rparr>" by auto
  let ?w2 = "w1\<lparr>reads := reads w1 + 1\<rparr>"
  from nw st rs have "\<exists>h. os_OpenFile (filePath ?s2) ?w2 = (Inr h, w0) \<and> s0 = ?s2\<lparr>file_ptr := Some h\<rparr>"
    by (auto simp: New_def time_Now_def Let_def w1 split: if_splits prod.splits sum.splits)
  then obtain h where op: "os_OpenFile (filePath ?s2) ?w2 = (Inr h, w0)"
    and s0: "s0 = ?s2\<lparr>file_ptr := Some h\<rparr>" by auto
  have "wf_world ?w2" using wf by (simp add: wf_world_def w1)
  from os_OpenFile_wf [OF op this]
  have a: "wf_world w0" and b: "names w0 (filePath ?s2) \<noteq> None"
    and c: "handles w0 h = names w0 (filePath ?s2)" by simp_all
  have fp: "filePath s0 = filePath ?s2" and ptr: "file_ptr s0 = Some h" by (simp_all add: s0)
  have inv: "log_inv (dom (names w0)) w0 s0 []"
    unfolding log_inv_def fp ptr using a b c by auto
  have "buf s0 = []" using apply_opts_keep [of ?s0 opts] by (simp add: s0)
  with inv show ?thesis by simp
qed

text \<open>
  Claim C4, as amended. Open a Writer with \<^verbatim>\<open>New\<close> and make any sequence of calls
  that all return nil, where every rotation gave its archive a name that no earlier
  archive has and that named no file when the Writer was opened. Then the archives in
  rotation order, followed by the active file, followed by the bytes still in the
  buffer, are the bytes the active file held when the Writer was opened followed by
  everything handed to \<^verbatim>\<open>Write\<close>, in call order.
\<close>

theorem log_round_trip:
  assumes "New w d opts = (Inr s0, w0)" and "wf_world w"
    and "run cs w0 s0 = (es, w1, s1)" and "\<forall>e \<in> set es. e = None"
    and "distinct (archives (issued w0 w1))"
    and "set (archives (issued w0 w1)) \<inter> dom (names w0) = {}"
  shows "concat (map (file_content w1) (archives (issued w0 w1))) @
           file_content w1 (filePath s1) @ buf s1 =
         file_content w0 (filePath s0) @ written cs"
proof -
  from New_log [OF assms(1,2)] have inv: "log_inv (dom (names w0)) w0 s0 []"
    and b: "buf s0 = []" by simp_all
  from assms(5,6) have f: "distinct ([] @ archives (issued w0 w1))"
    "set ([] @ archives (issued w0 w1)) \<inter> dom (names w0) = {}" by simp_all
  from run_log [OF assms(3,4) inv f]
  have "log_bytes w1 s1 ([] @ archives (issued w0 w1)) = log_bytes w0 s0 [] @ written cs"
    by (rule conjunct2)
  with b show ?thesis by (simp add: log_bytes_def)
qed

lemma ex_New_tuned:
  "New ex_world ''logs'' [WithMaxBufSize 2, WithMaxFileSize 4] =
     (Inr (ex_small\<lparr>maxFileSize := 4\<rparr>), ex_open)"
  by (simp add: New_def os_defs ex_defs filepath_Join_def fun_eq_iff)

lemma ex_three_writes:
  "fst (run [CallWrite ''ab'', CallWrite ''cd'', CallWrite ''e''] ex_open (ex_small\<lparr>maxFileSize := 4\<rparr>)) =
     [None, None, None] \<and>
   archives (issued ex_open (fst (snd (run [CallWrite ''ab'', CallWrite ''cd'', CallWrite ''e'']
       ex_open (ex_small\<lparr>maxFileSize := 4\<rparr>))))) = [''logs/20250307-090502.123456.log'']"
  by (simp add: Write_def flush_def rotate_log_def os_defs ex_defs Let_def ex_stamps
      filepath_Join_def int64_add_small issued_def)

theorem log_round_trip_witness:
  "fst (run [CallWrite ''ab'', CallWrite ''cd'', CallWrite ''e''] ex_open (ex_small\<lparr>maxFileSize := 4\<rparr>)) =
     [None, None, None] \<and>
   archives (issued ex_open (fst (snd (run [CallWrite ''ab'', CallWrite ''cd'', CallWrite ''e'']
       ex_open (ex_small\<lparr>maxFileSize := 4\<rparr>))))) = [''logs/20250307-090502.123456.log''] \<and>
   concat (map (file_content (fst (snd (run [CallWrite ''ab'', CallWrite ''cd'', CallWrite ''e'']
                 ex_open (ex_small\<lparr>maxFileSize := 4\<rparr>)))))
            (archives (issued ex_open (fst (snd (run [CallWrite ''ab'', CallWrite ''cd'', CallWrite ''e'']
                 ex_open (ex_small\<lparr>maxFileSize := 4\<rparr>))))))) @
     file_content (fst (snd (run [CallWrite ''ab'', CallWrite ''cd'', CallWrite ''e'']
                 ex_open (ex_small\<lparr>maxFileSize := 4\<rparr>))))
       (filePath (snd (snd (run [CallWrite ''ab'', CallWrite ''cd'', CallWrite ''e'']
                 ex_open (ex_small\<lparr>maxFileSize := 4\<rparr>))))) @
     buf (snd (snd (run [CallWrite ''ab'', CallWrite ''cd'', CallWrite ''e'']
                 ex_open (ex_small\<lparr>maxFileSize := 4\<rparr>)))) = ''abcde''"
proof -
  let ?cs = "[CallWrite ''ab'', CallWrite ''cd'', CallWrite ''e'']"
  let ?r = "run ?cs ex_open (ex_small\<lparr>maxFileSize := 4\<rparr>)"
  have rn: "?r = (fst ?r, fst (snd ?r), snd (snd ?r))" by simp
  from ex_three_writes have es: "fst ?r = [None, None, None]"
    and ar: "archives (issued ex_open (fst (snd ?r))) = [''logs/20250307-090502.123456.log'']"
    by (rule conjunct1, rule conjunct2)
  have wf: "wf_world ex_world" by (simp add: wf_world_def ex_defs)
  have ok: "\<forall>e \<in> set (fst ?r). e = None" unfolding es by simp
  have di: "distinct (archives (issued ex_open (fst (snd ?r))))" unfolding ar by simp
  have fr: "set (archives (issued ex_open (fst (snd ?r)))) \<inter> dom (names ex_open) = {}"
    unfolding ar by (simp add: ex_defs)
  have "concat (map (file_content (fst (snd ?r))) (archives (issued ex_open (fst (snd ?r))))) @
          file_content (fst (snd ?r)) (filePath (snd (snd ?r))) @ buf (snd (snd ?r)) =
        file_content ex_open (filePath (ex_small\<lparr>maxFileSize := 4\<rparr>)) @ written ?cs"
    by (rule log_round_trip [OF ex_New_tuned wf rn ok di fr])
  also have "\<dots> = ''abcde''" by (simp add: ex_defs file_content_def)
  finally show ?thesis using es ar by simp
qed

text \<open>
  Claim C4 as stated fails while bytes are pending: a \<^verbatim>\<open>Write\<close> below the thresholds
  returns nil, yet no archive exists and the active file is empty.
\<close>

theorem pending_bytes_are_in_no_file:
  "New ex_world ''logs'' [] = (Inr (ex_writer\<lparr>buf := []\<rparr>), ex_open) \<and>
   run [CallWrite ''ab''] ex_open (ex_writer\<lparr>buf := []\<rparr>) =
     ([None], ex_open\<lparr>reads := 2\<rparr>, ex_writer) \<and>
   concat (map (file_content (ex_open\<lparr>reads := 2\<rparr>)) (archives (issued ex_open (ex_open\<lparr>reads := 2\<rparr>)))) @
     file_content (ex_open\<lparr>reads := 2\<rparr>) (filePath ex_writer) = [] \<and>
   written [CallWrite ''ab''] = ''ab''"
  using ex_New
  by (simp add: Write_def Let_def os_defs issued_def file_content_def) (simp add: ex_defs)

end
